theory Spec2Isabelle
  imports Main "HOL-Library.Sublist"
begin

section \<open>JavaScript strings and arrays\<close>

text \<open>
  Strings are \<^typ>\<open>string\<close> (lists of 8-bit characters); the path utilities only ever
  compare characters for equality, so a path is modelled by the list of its characters.
  \<^verbatim>\<open>undefined\<close> of JavaScript is \<^term>\<open>None\<close>: a lookup table is a map
  \<open>string \<rightharpoonup> 'item\<close> and a resolved chain is a list of optional items.
\<close>

text \<open>\<^verbatim>\<open>s.indexOf(pat)\<close>: the position of the first occurrence of \<open>pat\<close>, or \<open>-1\<close>.\<close>

fun indexOf :: "string \<Rightarrow> string \<Rightarrow> int" where
  "indexOf [] pat = (if pat = [] then 0 else - 1)"
| "indexOf (c # cs) pat =
     (if prefix pat (c # cs) then 0
      else (let r = indexOf cs pat in if r < 0 then - 1 else r + 1))"

text \<open>
  \<^verbatim>\<open>s.replace(pat, rep)\<close> with a string pattern: only the first occurrence of \<open>pat\<close> is
  replaced. (The replacement strings of the sources, \<^verbatim>\<open>''\<close> and \<^verbatim>\<open>'.xml'\<close>, contain no
  \<^verbatim>\<open>$\<close>, so no replacement pattern is expanded.)
\<close>

fun replace :: "string \<Rightarrow> string \<Rightarrow> string \<Rightarrow> string" where
  "replace [] pat rep = (if pat = [] then rep else [])"
| "replace (c # cs) pat rep =
     (if prefix pat (c # cs) then rep @ drop (length pat) (c # cs)
      else c # replace cs pat rep)"

text \<open>
  \<^verbatim>\<open>s.split(sep)\<close> for a one-character separator (the sources split on \<^verbatim>\<open>'?'\<close>,
  \<^verbatim>\<open>'#'\<close>, \<^verbatim>\<open>';'\<close> and \<^verbatim>\<open>'/'\<close>); the empty string splits into \<^verbatim>\<open>['']\<close>.
\<close>

fun split :: "char \<Rightarrow> string \<Rightarrow> string list" where
  "split sep [] = [[]]"
| "split sep (c # cs) =
     (if c = sep then [] # split sep cs
      else (case split sep cs of [] \<Rightarrow> [[c]] | w # ws \<Rightarrow> (c # w) # ws))"

text \<open>\<^verbatim>\<open>array.join(sep)\<close>.\<close>

fun join :: "string \<Rightarrow> string list \<Rightarrow> string" where
  "join sep [] = []"
| "join sep [w] = w"
| "join sep (w # v # ws) = w @ sep @ join sep (v # ws)"

text \<open>\<^verbatim>\<open>array.indexOf(x)\<close>.\<close>

fun arrayIndexOf :: "'a list \<Rightarrow> 'a \<Rightarrow> int" where
  "arrayIndexOf [] x = - 1"
| "arrayIndexOf (y # ys) x =
     (if y = x then 0 else (let r = arrayIndexOf ys x in if r < 0 then - 1 else r + 1))"

text \<open>\<^verbatim>\<open>array.slice(0, e)\<close> for an end index \<open>e \<ge> 0\<close> (the sources pass an index plus one).\<close>

definition slice0 :: "'a list \<Rightarrow> int \<Rightarrow> 'a list" where
  "slice0 xs e = take (nat e) xs"

text \<open>The nullish coalescing operator \<^verbatim>\<open>a ?? b\<close>.\<close>

definition nullish :: "'a option \<Rightarrow> 'a option \<Rightarrow> 'a option" where
  "nullish a b = (case a of None \<Rightarrow> b | Some v \<Rightarrow> Some v)"

section \<open>Path normalizer: \<open>withoutIndex\<close>, \<open>withIndex\<close>\<close>

definition withoutIndex :: "string \<Rightarrow> string" where
  "withoutIndex path = replace path ''/index.xml'' ''''"

definition withIndex :: "string \<Rightarrow> string" where
  "withIndex path = withoutIndex path @ ''/index.xml''"

section \<open>\<open>getIndividualPaths\<close>\<close>

text \<open>
  \<^verbatim>\<open>path.replace(/^\/|\/$/g, '')\<close>: the scan removes a \<^verbatim>\<open>/\<close> at position 0 and then a
  \<^verbatim>\<open>/\<close> that is the last character of what follows.
\<close>

definition trimSlashes :: "string \<Rightarrow> string" where
  "trimSlashes path =
     (let rest = (case path of [] \<Rightarrow> [] | c # cs \<Rightarrow> if c = CHR ''/'' then cs else c # cs)
      in if rest \<noteq> [] \<and> last rest = CHR ''/'' then butlast rest else rest)"

text \<open>
  The \<^verbatim>\<open>do { paths.push('/' + array.join('/')); array.pop(); } while (array.length)\<close>
  loop; \<^verbatim>\<open>pop\<close> on an empty array leaves it empty.
\<close>

function getIndividualPaths_loop :: "string list \<Rightarrow> string list \<Rightarrow> string list" where
  "getIndividualPaths_loop paths array =
     (let paths' = paths @ [''/'' @ join ''/'' array];
          array' = butlast array
      in if array' \<noteq> [] then getIndividualPaths_loop paths' array' else paths')"
  by pat_completeness auto
termination
  by (relation "measure (\<lambda>(paths, array). length array)") (auto simp: length_greater_0_conv [symmetric] simp del: length_greater_0_conv)

text \<open>
  The optional argument \<open>rootPath\<close> is \<^term>\<open>None\<close> when it is not supplied; the test
  \<^verbatim>\<open>if (rootPath)\<close> also fails for the empty string.
\<close>

definition getIndividualPaths :: "string \<Rightarrow> string option \<Rightarrow> string list" where
  "getIndividualPaths path rootPath =
     (let paths = getIndividualPaths_loop [] (split CHR ''/'' (trimSlashes path))
      in case rootPath of
           None \<Rightarrow> paths
         | Some r \<Rightarrow>
             if r = [] then paths
             else if arrayIndexOf paths (withIndex r) \<ge> 0
               then slice0 paths (arrayIndexOf paths (withIndex r) + 1)
               else slice0 paths (arrayIndexOf paths r + 1))"

section \<open>Preview URL conversion\<close>

text \<open>
  A JavaScript exception is a value of \<open>js_error\<close>; a function that may throw returns
  \<open>js_error + 'a\<close>, with \<^term>\<open>Inl\<close> for the exception.
\<close>

datatype js_error = TypeError

text \<open>\<^verbatim>\<open>s.substring(i)\<close>: a negative start index counts as \<open>0\<close>.\<close>

definition substring :: "string \<Rightarrow> int \<Rightarrow> string" where
  "substring s i = drop (nat (max 0 i)) s"

text \<open>
  One of the three guarded cuts of \<open>getPathFromPreviewURL\<close>,
  \<^verbatim>\<open>if (pagePath.indexOf(sep) > 0) { pagePath = pagePath.split(sep)[0]; }\<close>.
  Element \<open>0\<close> of an empty array would be \<^verbatim>\<open>undefined\<close>, and the next method call on
  it would raise a \<^verbatim>\<open>TypeError\<close>.
\<close>

definition stripAfter :: "char \<Rightarrow> string \<Rightarrow> js_error + string" where
  "stripAfter sep pagePath =
     (if indexOf pagePath [sep] > 0
      then (case split sep pagePath of [] \<Rightarrow> Inl TypeError | w # ws \<Rightarrow> Inr w)
      else Inr pagePath)"

definition getPathFromPreviewURL :: "string \<Rightarrow> js_error + string" where
  "getPathFromPreviewURL previewURL =
     (case stripAfter CHR ''?'' previewURL of Inl e \<Rightarrow> Inl e | Inr p1 \<Rightarrow>
      case stripAfter CHR ''#'' p1 of Inl e \<Rightarrow> Inl e | Inr p2 \<Rightarrow>
      case stripAfter CHR '';'' p2 of Inl e \<Rightarrow> Inl e | Inr p3 \<Rightarrow>
        (let p4 = replace p3 ''.html'' ''.xml'';
             p5 = (if indexOf p4 ''.xml'' = - 1
                   then (if substring p4 (int (length p4) - 1) \<noteq> ''/'' then p4 @ ''/'' else p4)
                        @ ''index.xml''
                   else p4)
         in Inr (''/site/website'' @ p5)))"

definition getPreviewURLFromPath :: "string \<Rightarrow> string" where
  "getPreviewURLFromPath path = replace (withoutIndex path) ''/site/website'' []"

section \<open>Tree resolver: \<open>itemsFromPath\<close>\<close>

text \<open>
  \<open>itemsFromPath\<close> builds its pattern with
  \<^verbatim>\<open>new RegExp(`${rootWithIndex}|${rootWithoutIndex}|\\/index\\.xml|/$`, 'g')\<close>:
  the two forms of the root are pasted into the pattern unescaped, so each of their characters
  is read as regular-expression syntax. The model covers roots whose characters are ordinary
  ones or the dot: an ordinary character matches itself and \<^verbatim>\<open>.\<close> matches any character
  but a line terminator. A root with another operator character lies outside the model: for
  some of them the constructor raises a \<^verbatim>\<open>SyntaxError\<close>, for the others it builds a pattern
  with operators and the code returns a chain that is not computed here. \<open>atomsOf\<close> is
  \<^term>\<open>None\<close> for such a root, and the \<^term>\<open>None\<close> of \<open>itemsFromPath\<close> says no more than
  that the root is not covered. The statements below are about roots without such a
  character, for which \<open>itemsFromPath\<close> returns a chain (lemma \<open>itemsFromPath_covered\<close>).
\<close>

datatype atom = Lit char | AnyChar | EndOfInput

definition regexSpecial :: "char set" where
  "regexSpecial = {CHR 0x5C, CHR ''^'', CHR ''$'', CHR ''*'', CHR ''+'', CHR ''?'',
                   CHR ''('', CHR '')'', CHR ''['', CHR '']'', CHR ''{'', CHR ''}'', CHR ''|''}"

definition lineTerminators :: "char set" where
  "lineTerminators = {CHR 0x0A, CHR 0x0D}"

fun atomsOf :: "string \<Rightarrow> atom list option" where
  "atomsOf [] = Some []"
| "atomsOf (c # cs) =
     (if c \<in> regexSpecial then None
      else (case atomsOf cs of
              None \<Rightarrow> None
            | Some as \<Rightarrow> Some ((if c = CHR ''.'' then AnyChar else Lit c) # as)))"

text \<open>
  Matching one alternative at the start of a string: the number of characters consumed, or
  \<^term>\<open>None\<close>. \<open>EndOfInput\<close> is the assertion \<^verbatim>\<open>$\<close>.
\<close>

fun matchAtoms :: "atom list \<Rightarrow> string \<Rightarrow> nat option" where
  "matchAtoms [] s = Some 0"
| "matchAtoms (Lit c # as) [] = None"
| "matchAtoms (Lit c # as) (d # s) =
     (if c = d then map_option Suc (matchAtoms as s) else None)"
| "matchAtoms (AnyChar # as) [] = None"
| "matchAtoms (AnyChar # as) (d # s) =
     (if d \<in> lineTerminators then None else map_option Suc (matchAtoms as s))"
| "matchAtoms (EndOfInput # as) s = (if s = [] then matchAtoms as s else None)"

text \<open>The alternatives of \<^verbatim>\<open>a|b|c\<close> are tried from left to right; the first that matches wins.\<close>

fun matchAlternatives :: "atom list list \<Rightarrow> string \<Rightarrow> nat option" where
  "matchAlternatives [] s = None"
| "matchAlternatives (alt # alts) s =
     (case matchAtoms alt s of Some n \<Rightarrow> Some n | None \<Rightarrow> matchAlternatives alts s)"

text \<open>
  \<^verbatim>\<open>s.replace(regExp, '')\<close> with the \<^verbatim>\<open>g\<close> flag: the string is scanned from the left, a
  match is deleted and the scan goes on behind it; where nothing matches, or only the empty
  string does, the character is kept and the scan moves one position on.
\<close>

function regexRemoveAll :: "atom list list \<Rightarrow> string \<Rightarrow> string" where
  "regexRemoveAll re [] = []"
| "regexRemoveAll re (c # s) =
     (case matchAlternatives re (c # s) of
        None \<Rightarrow> c # regexRemoveAll re s
      | Some 0 \<Rightarrow> c # regexRemoveAll re s
      | Some (Suc n) \<Rightarrow> regexRemoveAll re (drop n s))"
  by pat_completeness auto
termination
  by (relation "measure (\<lambda>(re, s). length s)") auto

text \<open>
  The callback of
  \<^verbatim>\<open>.map((folder) => { accum += `/${folder}`; return items[accum] ?? items[withIndex(accum)]; })\<close>,
  with the running prefix \<open>accum\<close> passed along.
\<close>

fun walk :: "(string \<rightharpoonup> 'a) \<Rightarrow> string \<Rightarrow> string list \<Rightarrow> 'a option list" where
  "walk items accum [] = []"
| "walk items accum (folder # folders) =
     (let accum' = accum @ ''/'' @ folder
      in nullish (items accum') (items (withIndex accum')) # walk items accum' folders)"

text \<open>
  The lookup table is given by its property read \<^verbatim>\<open>items[key]\<close>, with \<^term>\<open>None\<close> for
  \<^verbatim>\<open>undefined\<close>. The read of a JavaScript object also finds the properties inherited from
  \<^verbatim>\<open>Object.prototype\<close>, such as \<^verbatim>\<open>constructor\<close>; none of their names holds a \<^verbatim>\<open>/\<close>, so on
  the keys that hold a \<^verbatim>\<open>/\<close> the read is that of the items stored in the table. The sample
  tables are read at such keys only.
\<close>

definition itemsFromPath :: "string \<Rightarrow> string \<Rightarrow> (string \<rightharpoonup> 'a) \<Rightarrow> 'a option list option" where
  "itemsFromPath path root items =
     (let rootWithIndex = withIndex root;
          rootWithoutIndex = withoutIndex root;
          rootItem = nullish (items rootWithIndex) (items root)
      in if path = rootWithIndex \<or> path = root then Some [rootItem]
         else (case (atomsOf rootWithIndex, atomsOf rootWithoutIndex) of
                 (Some alt1, Some alt2) \<Rightarrow>
                   (let regExp = [alt1, alt2, map Lit ''/index.xml'', [Lit CHR ''/'', EndOfInput]];
                        pathWithoutRoot = regexRemoveAll regExp path
                    in Some (rootItem # walk items rootWithoutIndex (tl (split CHR ''/'' pathWithoutRoot))))
               | _ \<Rightarrow> None))"

section \<open>Search panel: drag notifications\<close>

text \<open>
  The fields of a search item, of a search result and of a content instance that the panel
  reads. \<open>contentInstanceLookup\<close> is the component state filled by the search; the lookup of
  content types is \<^verbatim>\<open>null\<close> (\<^term>\<open>None\<close>) until the content types are loaded.
\<close>

record instance_metadata =
  path :: string
  contentTypeId :: string

record content_instance =
  craftercms :: instance_metadata

record search_item =
  path :: string
  name :: string
  type :: string

record search_result =
  items :: "search_item list"
  total :: nat

text \<open>The messages sent with \<^verbatim>\<open>hostToGuest$.next\<close>.\<close>

datatype 'ct message =
    COMPONENT_INSTANCE_DRAG_STARTED content_instance "'ct option"
  | ASSET_DRAG_STARTED search_item
  | COMPONENT_INSTANCE_DRAG_ENDED
  | ASSET_DRAG_ENDED


definition onDragEnd :: "search_item \<Rightarrow> 'ct message list" where
  "onDragEnd item =
     [if type item = ''Component'' then COMPONENT_INSTANCE_DRAG_ENDED else ASSET_DRAG_ENDED]"

section \<open>Search panel: the query pipeline of \<open>onSearch\<close>\<close>

text \<open>
  One call of \<open>onSearch\<close> subscribes to
  \<^verbatim>\<open>search(site, ...).pipe(takeUntil(unMount$), switchMap(project)).subscribe(next, error)\<close>.
  The pipeline is modelled as a state machine driven by the events that reach it: the
  response or the failure of the search request, the response or the failure of the \<open>i\<close>-th
  content-instance request, and the emission of \<^verbatim>\<open>unMount$\<close>. Each request answers once:
  it emits one value and completes, or it fails. \<open>step\<close> returns the next stage and the
  effects of the event: the content-instance requests subscribed to and the state setters
  called.
\<close>

text \<open>
  The requests that \<open>project\<close> collects: one
  \<^verbatim>\<open>getContentInstance(site, item.path, contentTypesLookup)\<close> for each item of type
  \<^verbatim>\<open>Component\<close>, in the order of the items.
\<close>

definition requests :: "search_result \<Rightarrow> string list" where
  "requests r = map search_item.path (filter (\<lambda>item. type item = ''Component'') (items r))"

text \<open>The value handed to the \<open>next\<close> handler: \<^verbatim>\<open>{ result, contentInstances }\<close>.\<close>

record response =
  result :: search_result
  contentInstances :: "content_instance list option"

text \<open>
  \<open>SetContentInstanceLookup cis\<close> stands for
  \<^verbatim>\<open>setContentInstanceLookup(createLookupTable(cis, 'craftercms.path'))\<close>, and \<open>SetError e\<close>
  for \<^verbatim>\<open>setError(response)\<close>, where \<open>e\<close> is the \<^verbatim>\<open>response\<close> field of the error.
\<close>

datatype 'e effect =
    GetContentInstance string
  | SetSearchResults search_result
  | SetContentInstanceLookup "content_instance list"
  | SetError 'e

datatype 'e event =
    SearchResponse search_result
  | SearchFailure 'e
  | ContentInstanceResponse nat content_instance
  | ContentInstanceFailure nat 'e
  | UnMount

text \<open>
  \<^item> \<open>Searching\<close>: the search request is pending; \<^verbatim>\<open>takeUntil(unMount$)\<close> listens.
  \<^item> \<open>Hydrating r slots\<close>: the search has answered \<open>r\<close> and completed, and \<^verbatim>\<open>switchMap\<close>
    holds the inner \<^verbatim>\<open>forkJoin\<close>; \<open>slots\<close> are the values received so far.
  \<^item> \<open>Closed\<close>: the subscriber has completed or failed.
\<close>

datatype stage =
    Searching
  | Hydrating search_result "content_instance option list"
  | Closed

definition onNext :: "response \<Rightarrow> 'e effect list" where
  "onNext rsp =
     SetSearchResults (result rsp) #
     (case contentInstances rsp of None \<Rightarrow> [] | Some cis \<Rightarrow> [SetContentInstanceLookup cis])"

definition onError :: "'e \<Rightarrow> 'e effect list" where
  "onError e = [SetError e]"

text \<open>
  \<^item> A search response passes \<^verbatim>\<open>takeUntil\<close> and reaches \<open>project\<close>: with no request,
    \<^verbatim>\<open>of({ result, contentInstances: null })\<close> emits at once; otherwise \<^verbatim>\<open>forkJoin\<close>
    subscribes to every request.
  \<^item> \<^verbatim>\<open>forkJoin\<close> emits the array of all values when its last request has answered, and
    fails as soon as one request fails; a request that has answered does not answer again.
  \<^item> \<^verbatim>\<open>takeUntil(unMount$)\<close> stands before \<^verbatim>\<open>switchMap\<close>: an emission of \<^verbatim>\<open>unMount$\<close>
    ends the subscription to the search, and the pipeline completes if no inner
    subscription is active. It does not reach the inner \<^verbatim>\<open>forkJoin\<close>: \<^verbatim>\<open>switchMap\<close> keeps
    an active inner subscription after its source has completed.
\<close>

fun step :: "'e event \<Rightarrow> stage \<Rightarrow> stage \<times> 'e effect list" where
  "step (SearchResponse r) Searching =
     (if requests r \<noteq> []
      then (Hydrating r (replicate (length (requests r)) None), map GetContentInstance (requests r))
      else (Closed, onNext \<lparr>result = r, contentInstances = None\<rparr>))"
| "step (SearchFailure e) Searching = (Closed, onError e)"
| "step UnMount Searching = (Closed, [])"
| "step (ContentInstanceResponse i v) (Hydrating r slots) =
     (if i < length slots \<and> slots ! i = None
      then (case those (slots[i := Some v]) of
              None \<Rightarrow> (Hydrating r (slots[i := Some v]), [])
            | Some cis \<Rightarrow> (Closed, onNext \<lparr>result = r, contentInstances = Some cis\<rparr>))
      else (Hydrating r slots, []))"
| "step (ContentInstanceFailure i e) (Hydrating r slots) =
     (if i < length slots \<and> slots ! i = None then (Closed, onError e)
      else (Hydrating r slots, []))"
| "step UnMount (Hydrating r slots) = (Hydrating r slots, [])"
| "step ev st = (st, [])"

text \<open>A sequence of events, with the effects in the order in which they happen.\<close>

fun run :: "'e event list \<Rightarrow> stage \<Rightarrow> stage \<times> 'e effect list" where
  "run [] st = (st, [])"
| "run (ev # evs) st =
     (case step ev st of (st', fx) \<Rightarrow> (case run evs st' of (st'', fx') \<Rightarrow> (st'', fx @ fx')))"

section \<open>Notions used in the statements and proofs\<close>

text \<open>The characters that start the query string, the fragment and the path parameters.\<close>

definition urlDelimiters :: "char set" where
  "urlDelimiters = {CHR ''?'', CHR ''#'', CHR '';''}"

text \<open>The last step of \<open>getPathFromPreviewURL\<close>, on the rewritten path.\<close>

definition appendIndex :: "string \<Rightarrow> string" where
  "appendIndex t =
     (if sublist ''.xml'' t then t
      else if t \<noteq> [] \<and> last t = CHR ''/'' then t @ ''index.xml''
      else t @ ''/index.xml'')"

text \<open>A root written with ordinary characters only: no operator of regular expressions, no dot.\<close>

definition plain :: "string \<Rightarrow> bool" where
  "plain r \<longleftrightarrow> list_all (\<lambda>c. c \<notin> regexSpecial \<and> c \<noteq> CHR ''.'') r"

text \<open>The pattern that \<open>itemsFromPath\<close> builds for a plain root \<open>r\<close>.\<close>

definition wildIndex :: "atom list" where
  "wildIndex = map Lit ''/index'' @ AnyChar # map Lit ''xml''"

definition rootRegExp :: "string \<Rightarrow> atom list list" where
  "rootRegExp r = [map Lit r @ wildIndex, map Lit r, map Lit ''/index.xml'', [Lit CHR ''/'', EndOfInput]]"

text \<open>Removing the item of path \<open>p\<close> from a lookup table: both of its keys are cleared.\<close>

definition removeItem :: "(string \<rightharpoonup> 'a) \<Rightarrow> string \<Rightarrow> (string \<rightharpoonup> 'a)" where
  "removeItem tbl p = (\<lambda>k. if k = p \<or> k = p @ ''/index.xml'' then None else tbl k)"

text \<open>The requests answered in a sequence of events, and the slots that hold a value.\<close>

definition resolved :: "'e event list \<Rightarrow> nat set" where
  "resolved evs = {i. \<exists>v. ContentInstanceResponse i v \<in> set evs}"

definition filled :: "'a option list \<Rightarrow> nat set" where
  "filled slots = {i. i < length slots \<and> slots ! i \<noteq> None}"


text \<open>Sample data: two small sites, and search results with components and an image.\<close>

definition siteIndex :: "string \<rightharpoonup> string" where
  "siteIndex = [''/site/website/index.xml'' \<mapsto> ''Home'',
                ''/site/website/products'' \<mapsto> ''Products'',
                ''/site/website/products/shoes/index.xml'' \<mapsto> ''Shoes'',
                ''/site/website/products/shoes/boots'' \<mapsto> ''Boots'']"

definition blogIndex :: "string \<rightharpoonup> string" where
  "blogIndex = [''/site/website'' \<mapsto> ''Home'',
                ''/site/website/blog'' \<mapsto> ''Blog'',
                ''/site/website/blog/site'' \<mapsto> ''Site'',
                ''/site/website/blog/site/website'' \<mapsto> ''Website'']"

definition hero :: search_item where
  "hero = \<lparr>path = ''/site/components/hero.xml'', name = ''Hero'', type = ''Component''\<rparr>"

definition banner :: search_item where
  "banner = \<lparr>path = ''/site/components/banner.xml'', name = ''Banner'', type = ''Component''\<rparr>"

definition logo :: search_item where
  "logo = \<lparr>path = ''/static-assets/images/logo.png'', name = ''Logo'', type = ''Image''\<rparr>"

definition heroInstance :: content_instance where
  "heroInstance =
     \<lparr>craftercms = \<lparr>instance_metadata.path = ''/site/components/hero.xml'',
                     contentTypeId = ''/component/hero''\<rparr>\<rparr>"

definition footer :: search_item where
  "footer = \<lparr>path = ''/site/components/footer.xml'', name = ''Footer'', type = ''Component''\<rparr>"

definition bannerInstance :: content_instance where
  "bannerInstance =
     \<lparr>craftercms = \<lparr>instance_metadata.path = ''/site/components/banner.xml'',
                     contentTypeId = ''/component/banner''\<rparr>\<rparr>"

definition footerInstance :: content_instance where
  "footerInstance =
     \<lparr>craftercms = \<lparr>instance_metadata.path = ''/site/components/footer.xml'',
                     contentTypeId = ''/component/footer''\<rparr>\<rparr>"

definition imageResult :: search_result where
  "imageResult = \<lparr>items = [logo], total = 1\<rparr>"

definition heroResult :: search_result where
  "heroResult = \<lparr>items = [hero], total = 1\<rparr>"

definition mixedResult :: search_result where
  "mixedResult = \<lparr>items = [hero, logo, banner, footer], total = 4\<rparr>"

section \<open>Facts about the string primitives\<close>

lemma replace_absent: "\<not> sublist pat s \<Longrightarrow> replace s pat rep = s"
  by (induction s) (auto simp: sublist_Cons_right)

text \<open>
  A pattern whose first character does not occur in it again cannot overlap a copy of itself:
  if it does not occur in \<open>q\<close>, its first occurrence in \<open>q @ pat @ b\<close> is the one behind \<open>q\<close>.
\<close>

lemma no_straddle:
  assumes "c \<notin> set p'" "\<not> sublist (c # p') q" "q \<noteq> []"
  shows "\<not> prefix (c # p') (q @ c # p' @ b)"
proof
  assume pre: "prefix (c # p') (q @ c # p' @ b)"
  from assms(3) obtain x q' where q: "q = x # q'" by (cases q) auto
  from pre q have x: "x = c" and p: "prefix p' (q' @ c # p' @ b)" by auto
  from p have "prefix p' q' \<or> (\<exists>us. p' = q' @ us \<and> prefix us (c # p' @ b))"
    by (simp add: prefix_append)
  then show False
  proof
    assume "prefix p' q'"
    then have "prefix (c # p') q" using q x by simp
    with assms(2) show False by auto
  next
    assume "\<exists>us. p' = q' @ us \<and> prefix us (c # p' @ b)"
    then obtain us where us: "p' = q' @ us" "prefix us (c # p' @ b)" by blast
    show False
    proof (cases us)
      case Nil
      with us have "prefix (c # p') q" using q x by simp
      with assms(2) show False by auto
    next
      case (Cons u us')
      with us have "u = c" by simp
      with us Cons assms(1) show False by simp
    qed
  qed
qed

lemma replace_first_occurrence:
  assumes "c \<notin> set p'" "\<not> sublist (c # p') q"
  shows "replace (q @ c # p' @ b) (c # p') rep = q @ rep @ b"
  using assms(2)
proof (induction q)
  case Nil
  then show ?case by simp
next
  case (Cons x q)
  have np: "\<not> prefix (c # p') (x # (q @ c # p' @ b))"
    using no_straddle [OF assms(1) Cons.prems] by simp
  have "replace (x # (q @ c # p' @ b)) (c # p') rep = x # replace (q @ c # p' @ b) (c # p') rep"
    using np by (simp only: replace.simps if_False)
  moreover have "\<not> sublist (c # p') q" using Cons.prems by (simp add: sublist_Cons_right)
  ultimately show ?case using Cons.IH by simp
qed

lemma set_replace: "set (replace s pat rep) \<subseteq> set s \<union> set rep"
proof (induction s)
  case Nil
  show ?case by auto
next
  case (Cons c cs)
  have "set (drop (length pat) (c # cs)) \<subseteq> set (c # cs)" by (rule set_drop_subset)
  with Cons show ?case by auto
qed

lemma split_hd: "\<exists>ws. split sep s = takeWhile (\<lambda>c. c \<noteq> sep) s # ws"
  by (induction s) (auto split: list.splits)

lemma split_no_sep: "sep \<notin> set a \<Longrightarrow> split sep a = [a]"
  by (induction a) auto

lemma split_segment: "sep \<notin> set a \<Longrightarrow> split sep (a @ sep # rest) = a # split sep rest"
  by (induction a) auto

lemma indexOf_ge: "indexOf s pat \<ge> - 1"
  by (induction s) (auto simp: Let_def)

lemma indexOf_absent: "indexOf s pat = - 1 \<longleftrightarrow> \<not> sublist pat s"
proof (induction s)
  case Nil
  then show ?case by (cases pat) auto
next
  case (Cons c cs)
  have "indexOf cs pat \<ge> - 1" by (rule indexOf_ge)
  with Cons show ?case by (auto simp: Let_def sublist_Cons_right)
qed

lemma sublist_single: "sublist [c] s \<longleftrightarrow> c \<in> set s"
  by (induction s) (auto simp: sublist_Cons_right)

lemma indexOf_char_pos: "indexOf s [c] > 0 \<longleftrightarrow> c \<in> set s \<and> hd s \<noteq> c"
proof (cases s)
  case Nil
  then show ?thesis by simp
next
  case (Cons d ds)
  have "indexOf ds [c] \<ge> - 1" by (rule indexOf_ge)
  moreover have "indexOf ds [c] = - 1 \<longleftrightarrow> c \<notin> set ds"
    by (simp add: indexOf_absent sublist_single)
  ultimately show ?thesis using Cons by (auto simp: Let_def)
qed

lemma sublist_prefix_mono: "sublist x p \<Longrightarrow> prefix p q \<Longrightarrow> sublist x q"
  using sublist_order.order_trans prefix_imp_sublist by blast

lemma sublist_suffix_mono: "sublist x p \<Longrightarrow> suffix p q \<Longrightarrow> sublist x q"
  using sublist_order.order_trans suffix_imp_sublist by blast

section \<open>The two canonical forms\<close>

lemma withoutIndex_absent: "\<not> sublist ''/index.xml'' q \<Longrightarrow> withoutIndex q = q"
  by (simp add: withoutIndex_def replace_absent)

lemma withoutIndex_explicit:
  "\<not> sublist ''/index.xml'' q \<Longrightarrow> withoutIndex (q @ ''/index.xml'') = q"
  unfolding withoutIndex_def
  using replace_first_occurrence [of "CHR ''/''" "''index.xml''" q "[]" "[]"] by simp

text \<open>
  Claim C3, as amended. Let \<open>q\<close> be a path in implicit form, in which \<^verbatim>\<open>/index.xml\<close> does
  not occur, and \<open>p = q @ ''/index.xml''\<close> its explicit form. Then
  \<open>withoutIndex (withIndex p) = withoutIndex p\<close> and \<open>withIndex (withoutIndex p) = withIndex p\<close>;
  \<open>withoutIndex\<close> removes the trailing \<^verbatim>\<open>/index.xml\<close> of \<open>p\<close>, leaves \<open>q\<close> as it is and is
  idempotent on both; \<open>withIndex\<close> appends \<^verbatim>\<open>/index.xml\<close> to \<open>q\<close>, leaves \<open>p\<close> as it is and is
  idempotent on both.
\<close>

theorem withIndex_withoutIndex_round_trip:
  assumes "\<not> sublist ''/index.xml'' q" and "p = q @ ''/index.xml''"
  shows "withoutIndex (withIndex p) = withoutIndex p
       \<and> withIndex (withoutIndex p) = withIndex p
       \<and> withoutIndex p = q \<and> withoutIndex q = q
       \<and> withoutIndex (withoutIndex p) = withoutIndex p
       \<and> withoutIndex (withoutIndex q) = withoutIndex q
       \<and> withIndex q = q @ ''/index.xml'' \<and> withIndex p = p
       \<and> withIndex (withIndex p) = withIndex p
       \<and> withIndex (withIndex q) = withIndex q"
  using assms by (simp add: withIndex_def withoutIndex_absent withoutIndex_explicit)

text \<open>The amended claim C3 at the page \<^verbatim>\<open>/site/website/about\<close>.\<close>

theorem withIndex_withoutIndex_round_trip_witness:
  "\<not> sublist ''/index.xml'' ''/site/website/about''
   \<and> withoutIndex (withIndex ''/site/website/about/index.xml'') = ''/site/website/about''
   \<and> withIndex (withoutIndex ''/site/website/about/index.xml'') = ''/site/website/about/index.xml''
   \<and> withoutIndex (withoutIndex ''/site/website/about/index.xml'') = ''/site/website/about''
   \<and> withIndex (withIndex ''/site/website/about'') = ''/site/website/about/index.xml''"
  using withIndex_withoutIndex_round_trip [of "''/site/website/about''" "''/site/website/about/index.xml''"]
  by (simp add: sublist_Cons_right)

text \<open>
  Claim C3 as it is written fails. For the explicit path \<^verbatim>\<open>/site/website/index.xml\<close>,
  \<open>withoutIndex (withIndex p)\<close> is the implicit form \<^verbatim>\<open>/site/website\<close> and not \<open>withIndex p\<close>.
  And \<open>withoutIndex\<close> removes the first \<^verbatim>\<open>/index.xml\<close>, which need not be the trailing one.
\<close>

theorem withoutIndex_withIndex_counterexample:
  "withoutIndex (withIndex ''/site/website/index.xml'') \<noteq> withIndex ''/site/website/index.xml''
   \<and> withoutIndex ''/site/website/index.xml/a/index.xml'' \<noteq> ''/site/website/index.xml/a''"
  by (simp add: withIndex_def withoutIndex_def)

section \<open>\<open>getIndividualPaths\<close>\<close>

text \<open>
  Claim C9. \<^verbatim>\<open>getIndividualPaths("/a/b/c")\<close> is exactly \<^verbatim>\<open>["/a/b/c", "/a/b", "/a"]\<close>, most
  specific first, and with \<^verbatim>\<open>rootPath = "/a"\<close> the same three-element sequence is returned,
  since \<^verbatim>\<open>"/a"\<close> is its last element.
\<close>

theorem getIndividualPaths_abc:
  "getIndividualPaths ''/a/b/c'' None = [''/a/b/c'', ''/a/b'', ''/a'']
   \<and> getIndividualPaths ''/a/b/c'' (Some ''/a'') = [''/a/b/c'', ''/a/b'', ''/a'']"
  by (simp add: getIndividualPaths_def trimSlashes_def withIndex_def withoutIndex_def slice0_def)

section \<open>From a preview URL to a path\<close>

lemma stripAfter_total: "\<exists>r. stripAfter sep s = Inr r"
  using split_hd [of sep s] by (auto simp: stripAfter_def)

lemma stripAfter_takeWhile:
  assumes "s = [] \<or> hd s \<noteq> sep"
  shows "stripAfter sep s = Inr (takeWhile (\<lambda>c. c \<noteq> sep) s)"
proof (cases "sep \<in> set s")
  case True
  with assms have "indexOf s [sep] > 0" by (auto simp: indexOf_char_pos)
  then show ?thesis using split_hd [of sep s] by (auto simp: stripAfter_def)
next
  case False
  then have "\<not> indexOf s [sep] > 0" by (simp add: indexOf_char_pos)
  moreover from False have tw: "takeWhile (\<lambda>c. c \<noteq> sep) s = s" by (induction s) auto
  ultimately show ?thesis by (simp add: stripAfter_def tw)
qed

lemma substring_last:
  "substring t (int (length t) - 1) \<noteq> ''/'' \<longleftrightarrow> \<not> (t \<noteq> [] \<and> last t = CHR ''/'')"
proof (cases t rule: rev_cases)
  case Nil
  then show ?thesis by (simp add: substring_def)
next
  case (snoc ys y)
  then show ?thesis by (simp add: substring_def nat_diff_distrib')
qed

lemma getPathFromPreviewURL_total:
  "\<exists>r. getPathFromPreviewURL u = Inr r \<and> prefix ''/site/website'' r"
proof -
  obtain p1 where 1: "stripAfter CHR ''?'' u = Inr p1" using stripAfter_total by blast
  obtain p2 where 2: "stripAfter CHR ''#'' p1 = Inr p2" using stripAfter_total by blast
  obtain p3 where 3: "stripAfter CHR '';'' p2 = Inr p3" using stripAfter_total by blast
  show ?thesis by (simp add: getPathFromPreviewURL_def 1 2 3 Let_def)
qed

lemma strip_all:
  assumes "u = [] \<or> hd u \<notin> urlDelimiters"
  shows "stripAfter CHR ''?'' u = Inr (takeWhile (\<lambda>c. c \<noteq> CHR ''?'') u)"
    and "stripAfter CHR ''#'' (takeWhile (\<lambda>c. c \<noteq> CHR ''?'') u)
           = Inr (takeWhile (\<lambda>c. c \<noteq> CHR ''?'' \<and> c \<noteq> CHR ''#'') u)"
    and "stripAfter CHR '';'' (takeWhile (\<lambda>c. c \<noteq> CHR ''?'' \<and> c \<noteq> CHR ''#'') u)
           = Inr (takeWhile (\<lambda>c. c \<notin> urlDelimiters) u)"
proof -
  show "stripAfter CHR ''?'' u = Inr (takeWhile (\<lambda>c. c \<noteq> CHR ''?'') u)"
    using assms by (intro stripAfter_takeWhile) (auto simp: urlDelimiters_def)
  have "takeWhile (\<lambda>c. c \<noteq> CHR ''?'') u = [] \<or> hd (takeWhile (\<lambda>c. c \<noteq> CHR ''?'') u) \<noteq> CHR ''#''"
    using assms by (cases u) (auto simp: urlDelimiters_def)
  then show "stripAfter CHR ''#'' (takeWhile (\<lambda>c. c \<noteq> CHR ''?'') u)
           = Inr (takeWhile (\<lambda>c. c \<noteq> CHR ''?'' \<and> c \<noteq> CHR ''#'') u)"
    by (simp add: stripAfter_takeWhile takeWhile_takeWhile)
  have "takeWhile (\<lambda>c. c \<noteq> CHR ''?'' \<and> c \<noteq> CHR ''#'') u = []
      \<or> hd (takeWhile (\<lambda>c. c \<noteq> CHR ''?'' \<and> c \<noteq> CHR ''#'') u) \<noteq> CHR '';''"
    using assms by (cases u) (auto simp: urlDelimiters_def)
  then show "stripAfter CHR '';'' (takeWhile (\<lambda>c. c \<noteq> CHR ''?'' \<and> c \<noteq> CHR ''#'') u)
           = Inr (takeWhile (\<lambda>c. c \<notin> urlDelimiters) u)"
    by (simp add: stripAfter_takeWhile takeWhile_takeWhile urlDelimiters_def conj_commute conj_left_commute)
qed

text \<open>
  The value of \<open>getPathFromPreviewURL\<close> on an input that does not begin with a delimiter:
  the cut at the first delimiter, the first \<^verbatim>\<open>.html\<close> rewritten, the index document
  appended where no \<^verbatim>\<open>.xml\<close> occurs.
\<close>

lemma getPathFromPreviewURL_value:
  assumes "u = [] \<or> hd u \<notin> urlDelimiters"
  shows "getPathFromPreviewURL u =
     Inr (''/site/website'' @ appendIndex (replace (takeWhile (\<lambda>c. c \<notin> urlDelimiters) u) ''.html'' ''.xml''))"
  by (simp add: getPathFromPreviewURL_def strip_all [OF assms] Let_def indexOf_absent
      substring_last appendIndex_def)

lemma appendIndex_set: "set (appendIndex t) \<subseteq> set t \<union> set ''/index.xml''"
  by (auto simp: appendIndex_def)

lemma stripped_clean: "set (takeWhile (\<lambda>c. c \<notin> urlDelimiters) u) \<inter> urlDelimiters = {}"
  using set_takeWhileD by fastforce

lemma result_clean:
  "set (''/site/website'' @ appendIndex (replace (takeWhile (\<lambda>c. c \<notin> urlDelimiters) u) ''.html'' ''.xml''))
     \<inter> urlDelimiters = {}"
proof -
  let ?s = "takeWhile (\<lambda>c. c \<notin> urlDelimiters) u"
  have "set (appendIndex (replace ?s ''.html'' ''.xml'')) \<subseteq> set ?s \<union> set ''.xml'' \<union> set ''/index.xml''"
    using appendIndex_set [of "replace ?s ''.html'' ''.xml''"] set_replace [of ?s "''.html''" "''.xml''"]
    by blast
  moreover have "(set ''.xml'' \<union> set ''/index.xml'' \<union> set ''/site/website'') \<inter> urlDelimiters = {}"
    by (simp add: urlDelimiters_def)
  ultimately show ?thesis using stripped_clean [of u] by auto
qed

text \<open>
  Claim C4, as amended. For every input string \<open>getPathFromPreviewURL\<close> returns a path, and
  the path begins with \<^verbatim>\<open>/site/website\<close>. For an input \<open>u\<close> that does not begin with
  \<^verbatim>\<open>?\<close>, \<^verbatim>\<open>#\<close> or \<^verbatim>\<open>;\<close>, let \<open>s\<close> be \<open>u\<close> cut at the first of these characters. Then the result
  contains none of them, and
  \<^item> if \<open>s\<close> ends in \<^verbatim>\<open>.html\<close> and \<^verbatim>\<open>.html\<close> does not occur before, the extension is rewritten
    to \<^verbatim>\<open>.xml\<close> and nothing is appended;
  \<^item> if \<open>s\<close> ends in \<^verbatim>\<open>.xml\<close> and \<^verbatim>\<open>.html\<close> does not occur in it, the result is the root and \<open>s\<close>;
  \<^item> if neither \<^verbatim>\<open>.html\<close> nor \<^verbatim>\<open>.xml\<close> occurs in \<open>s\<close>, then \<^verbatim>\<open>/index.xml\<close> is appended, or
    \<^verbatim>\<open>index.xml\<close> when \<open>s\<close> ends in \<^verbatim>\<open>/\<close>.
\<close>

theorem getPathFromPreviewURL_canonical:
  "(\<exists>r. getPathFromPreviewURL u = Inr r \<and> prefix ''/site/website'' r)
   \<and> ((u = [] \<or> hd u \<notin> urlDelimiters) \<and> s = takeWhile (\<lambda>c. c \<notin> urlDelimiters) u \<longrightarrow>
        (\<forall>r. getPathFromPreviewURL u = Inr r \<longrightarrow> set r \<inter> urlDelimiters = {})
        \<and> (\<forall>a. s = a @ ''.html'' \<and> \<not> sublist ''.html'' a \<longrightarrow>
               getPathFromPreviewURL u = Inr (''/site/website'' @ a @ ''.xml''))
        \<and> (\<forall>a. s = a @ ''.xml'' \<and> \<not> sublist ''.html'' s \<longrightarrow>
               getPathFromPreviewURL u = Inr (''/site/website'' @ s))
        \<and> (\<not> sublist ''.html'' s \<and> \<not> sublist ''.xml'' s \<longrightarrow>
               getPathFromPreviewURL u =
                 Inr (''/site/website'' @ s
                      @ (if s \<noteq> [] \<and> last s = CHR ''/'' then ''index.xml'' else ''/index.xml''))))"
proof -
  have total: "\<exists>r. getPathFromPreviewURL u = Inr r \<and> prefix ''/site/website'' r"
    by (rule getPathFromPreviewURL_total)
  have rest: "(\<forall>r. getPathFromPreviewURL u = Inr r \<longrightarrow> set r \<inter> urlDelimiters = {})
        \<and> (\<forall>a. s = a @ ''.html'' \<and> \<not> sublist ''.html'' a \<longrightarrow>
               getPathFromPreviewURL u = Inr (''/site/website'' @ a @ ''.xml''))
        \<and> (\<forall>a. s = a @ ''.xml'' \<and> \<not> sublist ''.html'' s \<longrightarrow>
               getPathFromPreviewURL u = Inr (''/site/website'' @ s))
        \<and> (\<not> sublist ''.html'' s \<and> \<not> sublist ''.xml'' s \<longrightarrow>
               getPathFromPreviewURL u =
                 Inr (''/site/website'' @ s
                      @ (if s \<noteq> [] \<and> last s = CHR ''/'' then ''index.xml'' else ''/index.xml'')))"
    if h: "u = [] \<or> hd u \<notin> urlDelimiters" and s: "s = takeWhile (\<lambda>c. c \<notin> urlDelimiters) u"
  proof -
    have v: "getPathFromPreviewURL u = Inr (''/site/website'' @ appendIndex (replace s ''.html'' ''.xml''))"
      unfolding s using h by (rule getPathFromPreviewURL_value)
    have 1: "\<forall>r. getPathFromPreviewURL u = Inr r \<longrightarrow> set r \<inter> urlDelimiters = {}"
      using v result_clean [of u] unfolding s by simp
    have 2: "\<forall>a. s = a @ ''.html'' \<and> \<not> sublist ''.html'' a \<longrightarrow>
               getPathFromPreviewURL u = Inr (''/site/website'' @ a @ ''.xml'')"
    proof (intro allI impI)
      fix a assume a: "s = a @ ''.html'' \<and> \<not> sublist ''.html'' a"
      then have "replace s ''.html'' ''.xml'' = a @ ''.xml''"
        using replace_first_occurrence [of "CHR ''.''" "''html''" a "[]" "''.xml''"] by simp
      moreover have "appendIndex (a @ ''.xml'') = a @ ''.xml''" by (simp add: appendIndex_def)
      ultimately show "getPathFromPreviewURL u = Inr (''/site/website'' @ a @ ''.xml'')"
        using v by simp
    qed
    have 3: "\<forall>a. s = a @ ''.xml'' \<and> \<not> sublist ''.html'' s \<longrightarrow>
               getPathFromPreviewURL u = Inr (''/site/website'' @ s)"
    proof (intro allI impI)
      fix a assume a: "s = a @ ''.xml'' \<and> \<not> sublist ''.html'' s"
      then have "\<not> sublist ''.html'' s" by (rule conjunct2)
      then have "replace s ''.html'' ''.xml'' = s" by (rule replace_absent)
      moreover have "sublist ''.xml'' s" using a by auto
      ultimately show "getPathFromPreviewURL u = Inr (''/site/website'' @ s)"
        using v by (simp add: appendIndex_def)
    qed
    have 4: "\<not> sublist ''.html'' s \<and> \<not> sublist ''.xml'' s \<longrightarrow>
               getPathFromPreviewURL u =
                 Inr (''/site/website'' @ s
                      @ (if s \<noteq> [] \<and> last s = CHR ''/'' then ''index.xml'' else ''/index.xml''))"
      using v by (simp add: replace_absent appendIndex_def)
    from 1 2 3 4 show ?thesis by (intro conjI)
  qed
  from total rest show ?thesis by blast
qed

text \<open>The amended claim C4 at a page URL with a query string and a fragment.\<close>

theorem getPathFromPreviewURL_canonical_witness:
  "hd ''/products/shoes.html?size=9#top'' \<notin> urlDelimiters
   \<and> getPathFromPreviewURL ''/products/shoes.html?size=9#top'' = Inr ''/site/website/products/shoes.xml''
   \<and> set ''/site/website/products/shoes.xml'' \<inter> urlDelimiters = {}"
  using getPathFromPreviewURL_canonical
          [of "''/products/shoes.html?size=9#top''" "''/products/shoes.html''"]
  by (simp add: urlDelimiters_def sublist_Cons_right)

text \<open>
  Claim C4 as it is written fails. A delimiter at position \<open>0\<close> is not cut, since the
  test is \<^verbatim>\<open>indexOf(...) > 0\<close>: the result for \<^verbatim>\<open>?a\<close> contains \<^verbatim>\<open>?\<close>. Only the first \<^verbatim>\<open>.html\<close>
  is rewritten, and the index document is appended only where no \<^verbatim>\<open>.xml\<close> occurs at all: for
  \<^verbatim>\<open>/a.html/b.html\<close> the trailing \<^verbatim>\<open>.html\<close> stays and nothing is appended.
\<close>

theorem getPathFromPreviewURL_counterexample:
  "getPathFromPreviewURL ''?a'' = Inr ''/site/website?a/index.xml''
   \<and> CHR ''?'' \<in> set ''/site/website?a/index.xml''
   \<and> getPathFromPreviewURL ''/a.html/b.html'' = Inr ''/site/website/a.xml/b.html''"
  by (simp add: getPathFromPreviewURL_def stripAfter_def substring_def)

section \<open>From a path to a preview URL and back\<close>

lemma replace_root_prefix:
  "replace (''/site/website'' @ x) ''/index.xml'' rep = ''/site/website'' @ replace x ''/index.xml'' rep"
  by simp

lemma segments_no_trailing_slash:
  assumes "\<forall>seg \<in> set segs. seg \<noteq> [] \<and> CHR ''/'' \<notin> set seg"
  shows "\<not> (concat (map (\<lambda>seg. CHR ''/'' # seg) segs) \<noteq> []
            \<and> last (concat (map (\<lambda>seg. CHR ''/'' # seg) segs)) = CHR ''/'')"
  using assms
proof (induction segs rule: rev_induct)
  case Nil
  then show ?case by simp
next
  case (snoc y ys)
  then have "y \<noteq> []" "last y \<noteq> CHR ''/''" by (auto dest: last_in_set)
  then show ?case by simp
qed

lemma round_trip_general:
  assumes "set s \<inter> urlDelimiters = {}" "\<not> sublist ''.html'' s" "\<not> sublist ''.xml'' s"
    and "\<not> (s \<noteq> [] \<and> last s = CHR ''/'')"
  shows "getPreviewURLFromPath (''/site/website'' @ s @ ''/index.xml'') = s"
    and "getPathFromPreviewURL s = Inr (''/site/website'' @ s @ ''/index.xml'')"
proof -
  have "sublist ''.xml'' ''/index.xml''" by (simp add: sublist_Cons_right)
  with assms(3) have ni: "\<not> sublist ''/index.xml'' s" using sublist_order.order_trans by blast
  have "withoutIndex (''/site/website'' @ s @ ''/index.xml'')
          = ''/site/website'' @ replace (s @ ''/index.xml'') ''/index.xml'' []"
    unfolding withoutIndex_def by (rule replace_root_prefix)
  also have "replace (s @ ''/index.xml'') ''/index.xml'' [] = s"
    using replace_first_occurrence [of "CHR ''/''" "''index.xml''" s "[]" "[]"] ni by simp
  finally have w: "withoutIndex (''/site/website'' @ s @ ''/index.xml'') = ''/site/website'' @ s" .
  show "getPreviewURLFromPath (''/site/website'' @ s @ ''/index.xml'') = s"
    unfolding getPreviewURLFromPath_def w by simp
  have h: "s = [] \<or> hd s \<notin> urlDelimiters" using assms(1) by (cases s) auto
  have tw: "takeWhile (\<lambda>c. c \<notin> urlDelimiters) s = s" using assms(1) by (induction s) auto
  show "getPathFromPreviewURL s = Inr (''/site/website'' @ s @ ''/index.xml'')"
    using assms(2-4) by (simp add: getPathFromPreviewURL_value [OF h] tw replace_absent appendIndex_def)
qed

text \<open>
  Claim C10. Let \<open>p\<close> be \<^verbatim>\<open>/site/website\<close>, then \<open>s\<close>, then \<^verbatim>\<open>/index.xml\<close>, where \<open>s\<close> is a
  possibly empty sequence of segments, each a \<^verbatim>\<open>/\<close> followed by a non-empty name without
  \<^verbatim>\<open>/\<close>, and \<open>s\<close> contains none of \<^verbatim>\<open>?\<close>, \<^verbatim>\<open>#\<close>, \<^verbatim>\<open>;\<close>, \<^verbatim>\<open>.html\<close>, \<^verbatim>\<open>.xml\<close> and \<^verbatim>\<open>/site/website\<close>.
  Then \<open>getPathFromPreviewURL (getPreviewURLFromPath p)\<close> returns \<open>p\<close>.
\<close>

theorem preview_url_round_trip:
  assumes "s = concat (map (\<lambda>seg. CHR ''/'' # seg) segs)"
    and "\<forall>seg \<in> set segs. seg \<noteq> [] \<and> CHR ''/'' \<notin> set seg"
    and "CHR ''?'' \<notin> set s" and "CHR ''#'' \<notin> set s" and "CHR '';'' \<notin> set s"
    and "\<not> sublist ''.html'' s" and "\<not> sublist ''.xml'' s" and "\<not> sublist ''/site/website'' s"
    and "p = ''/site/website'' @ s @ ''/index.xml''"
  shows "getPathFromPreviewURL (getPreviewURLFromPath p) = Inr p"
proof -
  have 1: "set s \<inter> urlDelimiters = {}" using assms(3-5) by (simp add: urlDelimiters_def)
  have 2: "\<not> (s \<noteq> [] \<and> last s = CHR ''/'')"
    unfolding assms(1) using assms(2) by (rule segments_no_trailing_slash)
  show ?thesis
    using round_trip_general [OF 1 assms(6) assms(7) 2] assms(9) by simp
qed

text \<open>Claim C10 at a page two segments deep and at the home page, where \<open>s\<close> is empty.\<close>

theorem preview_url_round_trip_witness:
  "getPathFromPreviewURL (getPreviewURLFromPath ''/site/website/products/shoes/index.xml'')
     = Inr ''/site/website/products/shoes/index.xml''
   \<and> getPathFromPreviewURL (getPreviewURLFromPath ''/site/website/index.xml'')
     = Inr ''/site/website/index.xml''"
proof -
  have a: "getPathFromPreviewURL (getPreviewURLFromPath ''/site/website/products/shoes/index.xml'')
     = Inr ''/site/website/products/shoes/index.xml''"
    by (rule preview_url_round_trip [of "''/products/shoes''" "[''products'', ''shoes'']"])
       (simp_all add: sublist_Cons_right)
  have b: "getPathFromPreviewURL (getPreviewURLFromPath ''/site/website/index.xml'')
     = Inr ''/site/website/index.xml''"
    by (rule preview_url_round_trip [of "[]" "[]"]) (simp_all)
  from a b show ?thesis by simp
qed

text \<open>
  A path with an empty segment is not canonical and is not covered: the separator before
  \<^verbatim>\<open>index.xml\<close> is appended only where the URL does not end in one.
\<close>

lemma preview_url_empty_segment:
  "getPathFromPreviewURL (getPreviewURLFromPath ''/site/website/a//index.xml'')
     = Inr ''/site/website/a/index.xml''"
  by (simp add: getPathFromPreviewURL_def getPreviewURLFromPath_def withoutIndex_def
      stripAfter_def substring_def)

section \<open>The pattern of \<open>itemsFromPath\<close>\<close>

lemma atomsOf_plain: "plain r \<Longrightarrow> atomsOf r = Some (map Lit r)"
  by (induction r) (auto simp: plain_def)

lemma atomsOf_index: "atomsOf ''/index.xml'' = Some wildIndex"
  by (simp add: wildIndex_def regexSpecial_def)

lemma atomsOf_append:
  "atomsOf r = Some as \<Longrightarrow> atomsOf s = Some bs \<Longrightarrow> atomsOf (r @ s) = Some (as @ bs)"
  by (induction r arbitrary: as) (auto split: if_splits option.splits)

lemma matchAtoms_Lit_append:
  "matchAtoms (map Lit r @ as) s =
     (if prefix r s then map_option (\<lambda>n. length r + n) (matchAtoms as (drop (length r) s)) else None)"
proof (induction r arbitrary: s)
  case Nil
  then show ?case by (cases "matchAtoms as s") auto
next
  case (Cons c r)
  show ?case
  proof (cases s)
    case Nil
    then show ?thesis by simp
  next
    case (Cons d s')
    then show ?thesis using Cons.IH [of s'] by (auto simp: option.map_comp comp_def)
  qed
qed

lemma matchAtoms_Lit:
  "matchAtoms (map Lit r) s = (if prefix r s then Some (length r) else None)"
  using matchAtoms_Lit_append [of r "[]" s] by simp

lemma matchAtoms_Lit_appendD:
  "matchAtoms (map Lit r @ as) s = Some n \<Longrightarrow> \<exists>v m. s = r @ v \<and> matchAtoms as v = Some m"
proof (induction r arbitrary: s n)
  case Nil
  then show ?case by simp
next
  case (Cons c r)
  then obtain d s' where s: "s = d # s'" by (cases s) auto
  with Cons.prems have "c = d" and "\<exists>k. matchAtoms (map Lit r @ as) s' = Some k"
    by (auto split: if_splits)
  with Cons.IH s show ?case by auto
qed

lemma matchAtoms_wildIndex:
  assumes "matchAtoms wildIndex w = Some n"
  shows "\<exists>ch. prefix (''/index'' @ ch # ''xml'') w"
proof -
  from assms obtain v m where w: "w = ''/index'' @ v"
    and m: "matchAtoms (AnyChar # map Lit ''xml'') v = Some m"
    unfolding wildIndex_def using matchAtoms_Lit_appendD by blast
  then obtain ch v' where v: "v = ch # v'" by (cases v) auto
  with m have "\<exists>k. matchAtoms (map Lit ''xml'' @ []) v' = Some k" by (auto split: if_splits)
  then obtain v'' where "v' = ''xml'' @ v''" using matchAtoms_Lit_appendD by blast
  with w v show ?thesis by (auto simp: prefix_def)
qed

lemma matchAtoms_slash_end:
  "matchAtoms [Lit CHR ''/'', EndOfInput] s = (if s = ''/'' then Some 1 else None)"
  by (cases s) auto

lemma matchAlternatives_none:
  assumes "\<not> prefix r s" "\<not> prefix ''/index.xml'' s" "s \<noteq> ''/''"
  shows "matchAlternatives (rootRegExp r) s = None"
proof -
  have 1: "matchAtoms (map Lit r @ wildIndex) s = None"
    using assms(1) by (simp add: matchAtoms_Lit_append)
  have 2: "matchAtoms (map Lit r) s = None"
    using assms(1) by (simp add: matchAtoms_Lit)
  have 3: "matchAtoms (map Lit ''/index.xml'') s = None"
    using assms(2) unfolding matchAtoms_Lit by simp
  have 4: "matchAtoms [Lit CHR ''/'', EndOfInput] s = None"
    using assms(3) unfolding matchAtoms_slash_end by simp
  show ?thesis unfolding rootRegExp_def matchAlternatives.simps 1 2 3 4 by simp
qed

lemma matchAlternatives_root:
  assumes "\<not> (\<exists>ch. prefix (''/index'' @ ch # ''xml'') w)"
  shows "matchAlternatives (rootRegExp r) (r @ w) = Some (length r)"
proof -
  have "matchAtoms wildIndex w = None"
    using assms matchAtoms_wildIndex [of w] by (cases "matchAtoms wildIndex w") auto
  then have 1: "matchAtoms (map Lit r @ wildIndex) (r @ w) = None"
    by (simp add: matchAtoms_Lit_append)
  have 2: "matchAtoms (map Lit r) (r @ w) = Some (length r)"
    by (simp add: matchAtoms_Lit)
  show ?thesis unfolding rootRegExp_def matchAlternatives.simps 1 2 by simp
qed

lemma matchAlternatives_index:
  assumes "\<not> prefix r ''/index.xml''"
  shows "matchAlternatives (rootRegExp r) ''/index.xml'' = Some (length ''/index.xml'')"
proof -
  have 1: "matchAtoms (map Lit r @ wildIndex) ''/index.xml'' = None"
    using assms unfolding matchAtoms_Lit_append by simp
  have 2: "matchAtoms (map Lit r) ''/index.xml'' = None"
    using assms unfolding matchAtoms_Lit by simp
  have 3: "matchAtoms (map Lit ''/index.xml'') ''/index.xml'' = Some (length ''/index.xml'')"
    unfolding matchAtoms_Lit by simp
  show ?thesis unfolding rootRegExp_def matchAlternatives.simps 1 2 3 by simp
qed

text \<open>Where no alternative matches along \<open>t\<close>, the scan keeps \<open>t\<close>.\<close>

lemma regexRemoveAll_keep:
  assumes "\<And>s. s \<noteq> [] \<Longrightarrow> suffix s t \<Longrightarrow> matchAlternatives re (s @ u) = None"
  shows "regexRemoveAll re (t @ u) = t @ regexRemoveAll re u"
  using assms
proof (induction t)
  case Nil
  then show ?case by simp
next
  case (Cons c t)
  have "matchAlternatives re ((c # t) @ u) = None"
    by (rule Cons.prems) simp_all
  moreover have "regexRemoveAll re (t @ u) = t @ regexRemoveAll re u"
  proof (rule Cons.IH)
    fix s assume "s \<noteq> []" "suffix s t"
    then show "matchAlternatives re (s @ u) = None"
      using Cons.prems [of s] by (simp add: suffix_Cons)
  qed
  ultimately show ?case by simp
qed

lemma regexRemoveAll_root:
  assumes "r \<noteq> []" "\<not> (\<exists>ch. prefix (''/index'' @ ch # ''xml'') w)"
  shows "regexRemoveAll (rootRegExp r) (r @ w) = regexRemoveAll (rootRegExp r) w"
proof -
  from assms(1) obtain c r' where r: "r = c # r'" by (cases r) auto
  have "matchAlternatives (rootRegExp r) (c # (r' @ w)) = Some (Suc (length r'))"
    using matchAlternatives_root [OF assms(2), of r] r by simp
  then have "regexRemoveAll (rootRegExp r) (c # (r' @ w))
      = regexRemoveAll (rootRegExp r) (drop (length r') (r' @ w))"
    by simp
  then show ?thesis using r by simp
qed

lemma regexRemoveAll_index:
  assumes "\<not> prefix r ''/index.xml''"
  shows "regexRemoveAll (rootRegExp r) ''/index.xml'' = []"
  using matchAlternatives_index [OF assms] by simp

text \<open>
  The remainder of the target: the root is removed at the start, a trailing \<^verbatim>\<open>/index.xml\<close>
  at the end, and nothing in between, provided that the root and \<^verbatim>\<open>/index.xml\<close> do not occur
  again and the pattern of the explicit root, whose dot matches any character, does not
  match at the start.
\<close>

lemma pathWithoutRoot:
  assumes r: "\<not> sublist r w"
    and w: "w = t \<or> w = t @ ''/index.xml''"
    and i: "\<not> sublist ''/index.xml'' t"
    and l: "\<not> (t \<noteq> [] \<and> last t = CHR ''/'')"
    and x: "\<not> (\<exists>ch. prefix (''/index'' @ ch # ''xml'') w)"
  shows "regexRemoveAll (rootRegExp r) (r @ w) = t"
proof -
  from r have "r \<noteq> []" by auto
  then have start: "regexRemoveAll (rootRegExp r) (r @ w) = regexRemoveAll (rootRegExp r) w"
    using x by (rule regexRemoveAll_root)
  have slash: "s \<noteq> ''/''" if "suffix s t" for s
  proof
    assume "s = ''/''"
    with that obtain t' where "t = t' @ ''/''" by (auto simp: suffix_def)
    with l show False by simp
  qed
  from w show ?thesis
  proof
    assume wt: "w = t"
    have "regexRemoveAll (rootRegExp r) (t @ []) = t @ regexRemoveAll (rootRegExp r) []"
    proof (rule regexRemoveAll_keep)
      fix s assume s: "s \<noteq> []" "suffix s t"
      have "\<not> prefix r s" using r s(2) wt sublist_suffix_mono prefix_imp_sublist by blast
      moreover have "\<not> prefix ''/index.xml'' s"
        using i s(2) sublist_suffix_mono prefix_imp_sublist by blast
      moreover have "s \<noteq> ''/''" using s(2) by (rule slash)
      ultimately show "matchAlternatives (rootRegExp r) (s @ []) = None"
        by (simp add: matchAlternatives_none)
    qed
    with start wt show ?thesis by simp
  next
    assume wt: "w = t @ ''/index.xml''"
    have "regexRemoveAll (rootRegExp r) (t @ ''/index.xml'')
        = t @ regexRemoveAll (rootRegExp r) ''/index.xml''"
    proof (rule regexRemoveAll_keep)
      fix s assume s: "s \<noteq> []" "suffix s t"
      have "suffix (s @ ''/index.xml'') w" using s(2) wt by simp
      then have 1: "\<not> prefix r (s @ ''/index.xml'')"
        using r sublist_suffix_mono prefix_imp_sublist by blast
      have "\<not> sublist ''/index.xml'' s" using i s(2) sublist_suffix_mono by blast
      then have 2: "\<not> prefix ''/index.xml'' (s @ ''/index.xml'')"
        using no_straddle [of "CHR ''/''" "''index.xml''" s "[]"] s(1) by simp
      have 3: "s @ ''/index.xml'' \<noteq> ''/''" by simp
      from 1 2 3 show "matchAlternatives (rootRegExp r) (s @ ''/index.xml'') = None"
        by (rule matchAlternatives_none)
    qed
    moreover have "regexRemoveAll (rootRegExp r) ''/index.xml'' = []"
    proof (rule regexRemoveAll_index, rule notI)
      assume "prefix r ''/index.xml''"
      then have "sublist r ''/index.xml''" by (rule prefix_imp_sublist)
      moreover have "suffix ''/index.xml'' w" using wt by (simp add: suffix_def)
      ultimately show False using r sublist_suffix_mono by blast
    qed
    ultimately have "regexRemoveAll (rootRegExp r) (t @ ''/index.xml'') = t" by simp
    with start wt show ?thesis by simp
  qed
qed

section \<open>Resolving the ancestors of a path\<close>

lemma plain_no_index: "plain r \<Longrightarrow> \<not> sublist ''/index.xml'' r"
proof
  assume p: "plain r" and s: "sublist ''/index.xml'' r"
  from s have "set ''/index.xml'' \<subseteq> set r" by (rule set_mono_sublist)
  then have "CHR ''.'' \<in> set r" by simp
  with p show False by (auto simp: plain_def list_all_iff)
qed

text \<open>When the target is the root, the chain is the root item alone.\<close>

lemma atomsOf_covered: "set s \<inter> regexSpecial = {} \<Longrightarrow> \<exists>as. atomsOf s = Some as"
  by (induction s) auto

text \<open>For a root without operator characters the result is a chain.\<close>

lemma itemsFromPath_covered:
  assumes "set root \<inter> regexSpecial = {}"
  shows "\<exists>chain. itemsFromPath target root tbl = Some chain"
proof -
  have "set (withoutIndex root) \<subseteq> set root"
    using set_replace [of root "''/index.xml''" "''''"] by (simp add: withoutIndex_def)
  then have wo: "set (withoutIndex root) \<inter> regexSpecial = {}" using assms by blast
  have "set ''/index.xml'' \<inter> regexSpecial = {}" by (simp add: regexSpecial_def)
  then have wi: "set (withIndex root) \<inter> regexSpecial = {}"
    using wo unfolding withIndex_def set_append by blast
  from atomsOf_covered [OF wo] obtain as2 where a2: "atomsOf (withoutIndex root) = Some as2" ..
  from atomsOf_covered [OF wi] obtain as1 where a1: "atomsOf (withIndex root) = Some as1" ..
  show ?thesis unfolding itemsFromPath_def Let_def a1 a2 by simp
qed

lemma itemsFromPath_root:
  "itemsFromPath r r tbl = Some [nullish (tbl (withIndex r)) (tbl r)]"
  by (simp add: itemsFromPath_def)

lemma itemsFromPath_resolved:
  assumes "plain r" "target \<noteq> r" "target \<noteq> r @ ''/index.xml''"
  shows "itemsFromPath target r tbl =
     Some (nullish (tbl (r @ ''/index.xml'')) (tbl r)
           # walk tbl r (tl (split CHR ''/'' (regexRemoveAll (rootRegExp r) target))))"
proof -
  have wo: "withoutIndex r = r" using assms(1) by (simp add: plain_no_index withoutIndex_absent)
  have wi: "withIndex r = r @ ''/index.xml''" by (simp add: withIndex_def wo)
  have a2: "atomsOf r = Some (map Lit r)" using assms(1) by (rule atomsOf_plain)
  have a1: "atomsOf (r @ ''/index.xml'') = Some (map Lit r @ wildIndex)"
    using a2 atomsOf_index by (rule atomsOf_append)
  show ?thesis
    unfolding itemsFromPath_def wo wi Let_def a1 a2 using assms(2,3)
    by (simp add: rootRegExp_def)
qed

lemma split_three:
  assumes "CHR ''/'' \<notin> set a" "CHR ''/'' \<notin> set b" "CHR ''/'' \<notin> set c"
  shows "tl (split CHR ''/'' (''/'' @ a @ ''/'' @ b @ ''/'' @ c)) = [a, b, c]"
  using assms by (simp add: split_segment split_no_sep)

lemma walk_three:
  assumes "\<not> sublist ''/index.xml'' (r @ ''/'' @ a @ ''/'' @ b @ ''/'' @ c)"
  shows "walk tbl r [a, b, c] =
     [nullish (tbl (r @ ''/'' @ a)) (tbl (r @ ''/'' @ a @ ''/index.xml'')),
      nullish (tbl (r @ ''/'' @ a @ ''/'' @ b)) (tbl (r @ ''/'' @ a @ ''/'' @ b @ ''/index.xml'')),
      nullish (tbl (r @ ''/'' @ a @ ''/'' @ b @ ''/'' @ c))
              (tbl (r @ ''/'' @ a @ ''/'' @ b @ ''/'' @ c @ ''/index.xml''))]"
proof -
  let ?p3 = "r @ ''/'' @ a @ ''/'' @ b @ ''/'' @ c"
  have n: "\<not> sublist ''/index.xml'' p" if "prefix p ?p3" for p
    using assms that sublist_prefix_mono by blast
  have 1: "withIndex (r @ ''/'' @ a) = r @ ''/'' @ a @ ''/index.xml''"
    using n [of "r @ ''/'' @ a"] by (simp add: withIndex_def withoutIndex_absent)
  have 2: "withIndex (r @ ''/'' @ a @ ''/'' @ b) = r @ ''/'' @ a @ ''/'' @ b @ ''/index.xml''"
    using n [of "r @ ''/'' @ a @ ''/'' @ b"] by (simp add: withIndex_def withoutIndex_absent)
  have 3: "withIndex ?p3 = ?p3 @ ''/index.xml''"
    using n [of ?p3] by (simp add: withIndex_def withoutIndex_absent)
  have "walk tbl r [a, b, c] =
     [nullish (tbl (r @ ''/'' @ a)) (tbl (withIndex (r @ ''/'' @ a))),
      nullish (tbl (r @ ''/'' @ a @ ''/'' @ b)) (tbl (withIndex (r @ ''/'' @ a @ ''/'' @ b))),
      nullish (tbl ?p3) (tbl (withIndex ?p3))]"
    by (simp add: Let_def)
  then show ?thesis unfolding 1 2 3 by simp
qed

lemma itemsFromPath_chain:
  assumes pl: "plain r"
    and seg: "a \<noteq> [] \<and> CHR ''/'' \<notin> set a" "b \<noteq> [] \<and> CHR ''/'' \<notin> set b"
      "c \<noteq> [] \<and> CHR ''/'' \<notin> set c"
    and t: "t = ''/'' @ a @ ''/'' @ b @ ''/'' @ c"
    and w: "w = t \<or> w = t @ ''/index.xml''"
    and ni: "\<not> sublist ''/index.xml'' (r @ t)"
    and nr: "\<not> sublist r w"
    and nx: "\<not> (\<exists>ch. prefix (''/index'' @ ch # ''xml'') w)"
  shows "itemsFromPath (r @ w) r tbl =
     Some [nullish (tbl (r @ ''/index.xml'')) (tbl r),
           nullish (tbl (r @ ''/'' @ a)) (tbl (r @ ''/'' @ a @ ''/index.xml'')),
           nullish (tbl (r @ ''/'' @ a @ ''/'' @ b)) (tbl (r @ ''/'' @ a @ ''/'' @ b @ ''/index.xml'')),
           nullish (tbl (r @ ''/'' @ a @ ''/'' @ b @ ''/'' @ c))
                   (tbl (r @ ''/'' @ a @ ''/'' @ b @ ''/'' @ c @ ''/index.xml''))]"
proof -
  have it: "\<not> sublist ''/index.xml'' t"
    using ni sublist_suffix_mono [of "''/index.xml''" t "r @ t"] by (auto simp: suffix_def)
  have lt: "\<not> (t \<noteq> [] \<and> last t = CHR ''/'')"
    using seg(3) unfolding t by (auto dest: last_in_set)
  have re: "regexRemoveAll (rootRegExp r) (r @ w) = t"
    using nr w it lt nx by (rule pathWithoutRoot)
  have "w \<noteq> []" using w t by auto
  then have ne1: "r @ w \<noteq> r" by simp
  have "w \<noteq> ''/index.xml''"
  proof
    assume "w = ''/index.xml''"
    with w t have "t = ''/index.xml''" by auto
    with it show False by simp
  qed
  then have ne2: "r @ w \<noteq> r @ ''/index.xml''" by simp
  have sp: "tl (split CHR ''/'' t) = [a, b, c]"
    unfolding t using seg by (intro split_three) auto
  have wk: "\<not> sublist ''/index.xml'' (r @ ''/'' @ a @ ''/'' @ b @ ''/'' @ c)"
    using ni unfolding t .
  show ?thesis
    unfolding itemsFromPath_resolved [OF pl ne1 ne2] re sp walk_three [OF wk] by simp
qed

lemma not_index_segment:
  assumes "\<not> sublist ''/index.xml'' (x @ ''/'' @ s @ y)"
  shows "s \<noteq> ''index.xml''"
proof
  assume "s = ''index.xml''"
  then have "x @ ''/'' @ s @ y = x @ ''/index.xml'' @ y" by simp
  then have "sublist ''/index.xml'' (x @ ''/'' @ s @ y)" by (simp only: sublist_appendI)
  with assms show False by simp
qed

lemma not_index_slash: "u @ CHR ''/'' # v \<noteq> ''index.xml''"
proof
  assume "u @ CHR ''/'' # v = ''index.xml''"
  then have "CHR ''/'' \<in> set ''index.xml''" by (metis in_set_conv_decomp)
  then show False by simp
qed

text \<open>
  Where the pattern removes the leading root and nothing else, the chain has one slot for
  each level. Let the root be in implicit form, written with ordinary characters and
  holding a \<^verbatim>\<open>/\<close>, let \<open>a\<close>, \<open>b\<close>, \<open>c\<close> be non-empty segments without \<^verbatim>\<open>/\<close>, and let the target be
  \<open>root/a/b/c\<close> in implicit or in explicit form, such that \<^verbatim>\<open>/index.xml\<close> does not occur in
  \<open>root/a/b/c\<close>, the root does not occur again behind the root, and the part behind the root
  does not begin with \<^verbatim>\<open>/index\<close>, one more character and \<^verbatim>\<open>xml\<close>. Then \<open>itemsFromPath\<close> returns
  a chain of four slots: the root item, then the items of \<open>root/a\<close>, \<open>root/a/b\<close> and
  \<open>root/a/b/c\<close>, each looked up under both of its keys. Removing the item of one level from
  the index makes exactly the slot of that level absent and leaves the other slots as they
  are.
\<close>

lemma itemsFromPath_three_segments:
  fixes tbl :: "string \<rightharpoonup> 'a"
  assumes "plain root"
    and "a \<noteq> [] \<and> CHR ''/'' \<notin> set a"
    and "b \<noteq> [] \<and> CHR ''/'' \<notin> set b"
    and "c \<noteq> [] \<and> CHR ''/'' \<notin> set c"
    and "p1 = root @ ''/'' @ a" and "p2 = p1 @ ''/'' @ b" and "p3 = p2 @ ''/'' @ c"
    and "target = p3 \<or> target = p3 @ ''/index.xml''"
    and "\<not> sublist ''/index.xml'' p3"
    and "\<not> sublist root (drop (length root) target)"
    and "\<not> (\<exists>ch. prefix (''/index'' @ ch # ''xml'') (drop (length root) target))"
    and "chain = [nullish (tbl (root @ ''/index.xml'')) (tbl root),
                  nullish (tbl p1) (tbl (p1 @ ''/index.xml'')),
                  nullish (tbl p2) (tbl (p2 @ ''/index.xml'')),
                  nullish (tbl p3) (tbl (p3 @ ''/index.xml''))]"
    and "CHR ''/'' \<in> set root"
  shows "itemsFromPath target root tbl = Some chain
       \<and> length chain = 4
       \<and> itemsFromPath target root (removeItem tbl root) = Some (chain[0 := None])
       \<and> itemsFromPath target root (removeItem tbl p1) = Some (chain[1 := None])
       \<and> itemsFromPath target root (removeItem tbl p2) = Some (chain[2 := None])
       \<and> itemsFromPath target root (removeItem tbl p3) = Some (chain[3 := None])"
proof -
  define t where "t = ''/'' @ a @ ''/'' @ b @ ''/'' @ c"
  define w where "w = drop (length root) target"
  have p3: "p3 = root @ t" using assms(5-7) by (simp add: t_def)
  have target: "target = root @ w" using assms(8) unfolding w_def p3 by auto
  have w: "w = t \<or> w = t @ ''/index.xml''" using assms(8) unfolding w_def p3 by auto
  have ni: "\<not> sublist ''/index.xml'' (root @ t)" using assms(9) unfolding p3 .
  have nr: "\<not> sublist root w" using assms(10) unfolding w_def .
  have nx: "\<not> (\<exists>ch. prefix (''/index'' @ ch # ''xml'') w)" using assms(11) unfolding w_def .
  note val = itemsFromPath_chain [OF assms(1-4) t_def w ni nr nx]
  have na: "a \<noteq> ''index.xml''"
    using ni not_index_segment [of root a "''/'' @ b @ ''/'' @ c"] by (simp add: t_def)
  have nb: "b \<noteq> ''index.xml''"
    using ni not_index_segment [of "root @ ''/'' @ a" b "''/'' @ c"] by (simp add: t_def)
  have nc: "c \<noteq> ''index.xml''"
    using ni not_index_segment [of "root @ ''/'' @ a @ ''/'' @ b" c "[]"] by (simp add: t_def)
  have 0: "itemsFromPath target root tbl = Some chain"
    unfolding target val assms(12) assms(5-7) by simp
  have 1: "length chain = 4" unfolding assms(12) by simp
  have 2: "itemsFromPath target root (removeItem tbl root) = Some (chain[0 := None])"
    unfolding target val assms(12) assms(5-7) using na nb nc
    by (auto simp: removeItem_def nullish_def not_index_slash not_index_slash [symmetric])
  have 3: "itemsFromPath target root (removeItem tbl p1) = Some (chain[1 := None])"
    unfolding target val assms(12) assms(5-7) using na nb nc
    by (auto simp: removeItem_def nullish_def not_index_slash not_index_slash [symmetric])
  have 4: "itemsFromPath target root (removeItem tbl p2) = Some (chain[2 := None])"
    unfolding target val assms(12) assms(5-7) using na nb nc
    by (auto simp: removeItem_def nullish_def not_index_slash not_index_slash [symmetric])
  have 5: "itemsFromPath target root (removeItem tbl p3) = Some (chain[3 := None])"
    unfolding target val assms(12) assms(5-7) using na nb nc
    by (auto simp: removeItem_def nullish_def not_index_slash not_index_slash [symmetric])
  from 0 1 2 3 4 5 show ?thesis by simp
qed

text \<open>
  On the sample site, for the page \<^verbatim>\<open>/site/website/products/shoes/boots\<close> in both forms:
  the four items are found under the key that the index holds, and without the item of
  \<^verbatim>\<open>/site/website/products/shoes\<close> the third slot alone is absent.
\<close>

lemma itemsFromPath_three_segments_sample:
  "itemsFromPath ''/site/website/products/shoes/boots'' ''/site/website'' siteIndex
     = Some [Some ''Home'', Some ''Products'', Some ''Shoes'', Some ''Boots'']
   \<and> itemsFromPath ''/site/website/products/shoes/boots/index.xml'' ''/site/website'' siteIndex
     = Some [Some ''Home'', Some ''Products'', Some ''Shoes'', Some ''Boots'']
   \<and> itemsFromPath ''/site/website/products/shoes/boots'' ''/site/website''
        (removeItem siteIndex ''/site/website/products/shoes'')
     = Some [Some ''Home'', Some ''Products'', None, Some ''Boots'']"
  using itemsFromPath_three_segments
    [where root = "''/site/website''" and a = "''products''" and b = "''shoes''" and c = "''boots''"
       and ?p1.0 = "''/site/website/products''" and ?p2.0 = "''/site/website/products/shoes''"
       and ?p3.0 = "''/site/website/products/shoes/boots''"
       and target = "''/site/website/products/shoes/boots''" and tbl = siteIndex
       and chain = "[Some ''Home'', Some ''Products'', Some ''Shoes'', Some ''Boots'']"]
    itemsFromPath_three_segments
    [where root = "''/site/website''" and a = "''products''" and b = "''shoes''" and c = "''boots''"
       and ?p1.0 = "''/site/website/products''" and ?p2.0 = "''/site/website/products/shoes''"
       and ?p3.0 = "''/site/website/products/shoes/boots''"
       and target = "''/site/website/products/shoes/boots/index.xml''" and tbl = siteIndex
       and chain = "[Some ''Home'', Some ''Products'', Some ''Shoes'', Some ''Boots'']"]
  by (simp add: plain_def regexSpecial_def sublist_Cons_right siteIndex_def nullish_def)

text \<open>
  Claim C5 at the input on which the code fails it: the target
  \<^verbatim>\<open>/site/website/blog/site/website\<close> lies three segments below the root \<^verbatim>\<open>/site/website\<close>,
  and the index holds an item at the root and at each of the three levels. The code means
  to strip the root from the front of the target, but its pattern is not anchored and is
  applied globally, so the root is removed wherever it occurs: the remainder of the target
  is \<^verbatim>\<open>/blog\<close>, and the chain has two slots instead of four.
\<close>

theorem itemsFromPath_recurring_root:
  "blogIndex ''/site/website'' = Some ''Home''
   \<and> blogIndex ''/site/website/blog'' = Some ''Blog''
   \<and> blogIndex ''/site/website/blog/site'' = Some ''Site''
   \<and> blogIndex ''/site/website/blog/site/website'' = Some ''Website''
   \<and> itemsFromPath ''/site/website/blog/site/website'' ''/site/website'' blogIndex
       = Some [Some ''Home'', Some ''Blog'']"
  by (simp add: itemsFromPath_def withIndex_def withoutIndex_def regexSpecial_def
      lineTerminators_def nullish_def blogIndex_def Let_def)

text \<open>
  Two more targets on which the pattern removes too much: a segment \<^verbatim>\<open>index.xml\<close> in the
  middle, and the segments \<^verbatim>\<open>index\<close> and \<^verbatim>\<open>xml\<close>, which the unescaped dot of the explicit
  root matches.
\<close>

lemma itemsFromPath_index_segment:
  "itemsFromPath ''/site/website/a/index.xml/c'' ''/site/website'' Map.empty
     = Some [None :: string option, None, None]"
  by (simp add: itemsFromPath_def withIndex_def withoutIndex_def regexSpecial_def
      lineTerminators_def nullish_def Let_def)

lemma itemsFromPath_wildcard:
  "itemsFromPath ''/site/website/index/xml/c'' ''/site/website'' Map.empty
     = Some [None :: string option, None]"
  by (simp add: itemsFromPath_def withIndex_def withoutIndex_def regexSpecial_def
      lineTerminators_def nullish_def Let_def)

text \<open>
  Claim C2 at the input on which the code fails it: the root is given in explicit form and
  the index holds the root item under the implicit key. The root item is looked up under
  the explicit key and under the root as it is given, never under the implicit form that
  \<open>itemsFromPath\<close> computes, so the single slot of the chain is absent.
\<close>

theorem itemsFromPath_explicit_root:
  "itemsFromPath ''/site/website/index.xml'' ''/site/website/index.xml''
       [''/site/website'' \<mapsto> ''Home'']
     = Some [None]"
  by (simp add: itemsFromPath_def withIndex_def withoutIndex_def nullish_def)

text \<open>
  For a root given in implicit form both keys are tried, and for a root given in explicit
  form the explicit key is.
\<close>

lemma itemsFromPath_implicit_root:
  assumes "\<not> sublist ''/index.xml'' r"
  shows "itemsFromPath r r tbl = Some [nullish (tbl (r @ ''/index.xml'')) (tbl r)]"
    and "itemsFromPath (r @ ''/index.xml'') (r @ ''/index.xml'') tbl = Some [tbl (r @ ''/index.xml'')]"
  using assms
  by (simp_all add: itemsFromPath_root withIndex_def withoutIndex_absent withoutIndex_explicit
      nullish_def split: option.splits)

section \<open>Dragging a search result\<close>


lemma onDragEnd_component:
  "type item = ''Component'' \<Longrightarrow> onDragEnd item = [COMPONENT_INSTANCE_DRAG_ENDED]"
  by (simp add: onDragEnd_def)


section \<open>The query pipeline\<close>

lemma run_Closed: "run evs Closed = (Closed, [])"
  by (induction evs) auto

lemma run_append:
  "run (evs @ evs') st =
     (case run evs st of (st', fx) \<Rightarrow> (case run evs' st' of (st'', fx') \<Rightarrow> (st'', fx @ fx')))"
  by (induction evs arbitrary: st) (auto split: prod.splits)

lemma requests_length:
  "length (requests r) = length (filter (\<lambda>item. type item = ''Component'') (items r))"
  by (simp add: requests_def)

lemma those_Some_nth: "those xs = Some ys \<Longrightarrow> i < length xs \<Longrightarrow> xs ! i \<noteq> None"
proof (induction xs arbitrary: ys i)
  case Nil
  then show ?case by simp
next
  case (Cons x xs)
  then show ?case by (cases i) (auto split: option.splits)
qed

lemma those_map_Some: "those (map Some xs) = Some xs"
  by (induction xs) auto

lemma those_pending: "those (map Some xs @ None # ys) = None"
  by (induction xs) (auto split: option.splits)

lemma those_replicate_None: "0 < k \<Longrightarrow> those (map Some xs @ replicate k None) = None"
  using those_pending [of xs "replicate (k - 1) None"] by (cases k) auto

lemma resolved_Cons: "resolved evs \<subseteq> resolved (ev # evs)"
  by (auto simp: resolved_def)

lemma resolved_here: "i \<in> resolved (ContentInstanceResponse i v # evs)"
  by (auto simp: resolved_def)

lemma filled_update: "filled (slots[i := Some v]) \<subseteq> filled slots \<union> {i}"
  by (auto simp: filled_def nth_list_update split: if_splits)

lemma filled_those: "those slots = Some cis \<Longrightarrow> filled slots = {..<length slots}"
  using those_Some_nth by (fastforce simp: filled_def)

text \<open>What one event can do while the content instances are awaited.\<close>

lemma step_Hydrating_cases:
  assumes "step ev (Hydrating r slots) = (st, fx)"
  shows "(st = Hydrating r slots \<and> fx = [])
       \<or> (\<exists>i v. ev = ContentInstanceResponse i v \<and> i < length slots \<and> slots ! i = None
             \<and> those (slots[i := Some v]) = None \<and> st = Hydrating r (slots[i := Some v]) \<and> fx = [])
       \<or> (\<exists>i v cis. ev = ContentInstanceResponse i v \<and> i < length slots \<and> slots ! i = None
             \<and> those (slots[i := Some v]) = Some cis \<and> st = Closed
             \<and> fx = [SetSearchResults r, SetContentInstanceLookup cis])
       \<or> (\<exists>i e. ev = ContentInstanceFailure i e \<and> i < length slots \<and> slots ! i = None
             \<and> st = Closed \<and> fx = [SetError e])"
  using assms by (cases ev) (auto simp: onNext_def onError_def split: if_splits option.splits)

text \<open>
  The invariant of the wait: as long as the stage is \<open>Hydrating\<close>, no effect has happened and
  every filled slot was filled before or by a response among the events; a closed pipeline
  has either reported one error, or published the pair after every slot was filled.
\<close>

lemma hydrating_trace:
  assumes "run evs (Hydrating r slots0) = (st, fx)"
  shows "(\<exists>slots. st = Hydrating r slots \<and> fx = [] \<and> length slots = length slots0
            \<and> filled slots \<subseteq> filled slots0 \<union> resolved evs)
       \<or> (st = Closed \<and> (\<exists>e. fx = [SetError e]))
       \<or> (st = Closed \<and> (\<exists>cis. fx = [SetSearchResults r, SetContentInstanceLookup cis])
            \<and> {..<length slots0} \<subseteq> filled slots0 \<union> resolved evs)"
  using assms
proof (induction evs arbitrary: slots0 st fx)
  case Nil
  then show ?case by auto
next
  case (Cons ev evs)
  obtain st1 fx1 where s1: "step ev (Hydrating r slots0) = (st1, fx1)"
    by (cases "step ev (Hydrating r slots0)")
  obtain st2 fx2 where s2: "run evs st1 = (st2, fx2)" by (cases "run evs st1")
  from Cons.prems s1 s2 have res: "st = st2" "fx = fx1 @ fx2" by auto
  note mono = resolved_Cons [of evs ev]
  from step_Hydrating_cases [OF s1] show ?case
  proof (elim disjE exE conjE)
    assume a: "st1 = Hydrating r slots0" "fx1 = []"
    with s2 have "run evs (Hydrating r slots0) = (st2, fx2)" by simp
    from Cons.IH [OF this] show ?thesis
      unfolding res a using mono by (elim disjE exE conjE) (simp; blast)+
  next
    fix i v
    assume a: "ev = ContentInstanceResponse i v" "i < length slots0" "slots0 ! i = None"
      "st1 = Hydrating r (slots0[i := Some v])" "fx1 = []"
    with s2 have "run evs (Hydrating r (slots0[i := Some v])) = (st2, fx2)" by simp
    note ih = Cons.IH [OF this]
    have here: "i \<in> resolved (ev # evs)" unfolding a(1) by (rule resolved_here)
    have upd: "filled (slots0[i := Some v]) \<subseteq> filled slots0 \<union> resolved (ev # evs)"
      using filled_update [of slots0 i v] here by blast
    from ih show ?thesis
      unfolding res a(4,5) using mono upd by (elim disjE exE conjE) (simp; blast)+
  next
    fix i v cis
    assume a: "ev = ContentInstanceResponse i v" "i < length slots0" "slots0 ! i = None"
      "those (slots0[i := Some v]) = Some cis" "st1 = Closed"
      "fx1 = [SetSearchResults r, SetContentInstanceLookup cis]"
    have here: "i \<in> resolved (ev # evs)" unfolding a(1) by (rule resolved_here)
    have "{..<length slots0} \<subseteq> filled (slots0[i := Some v])"
      using filled_those [OF a(4)] by simp
    then have "{..<length slots0} \<subseteq> filled slots0 \<union> resolved (ev # evs)"
      using filled_update [of slots0 i v] here by blast
    moreover from s2 a have "st2 = Closed" "fx2 = []" by (simp_all add: run_Closed)
    ultimately show ?thesis using res a by simp
  next
    fix i e
    assume a: "ev = ContentInstanceFailure i e" "st1 = Closed" "fx1 = [SetError e]"
    with s2 have "st2 = Closed" "fx2 = []" by (simp_all add: run_Closed)
    with res a show ?thesis by simp
  qed
qed

lemma published_after_all_resolved:
  assumes "run evs (Hydrating r (replicate n None)) = (st, fx)"
    and "SetSearchResults r' \<in> set fx"
  shows "(\<forall>i<n. \<exists>v. ContentInstanceResponse i v \<in> set evs)
       \<and> (\<exists>cis. fx = [SetSearchResults r, SetContentInstanceLookup cis])"
proof -
  have e: "filled (replicate n (None :: content_instance option)) = {}"
    by (auto simp: filled_def)
  from hydrating_trace [OF assms(1)] assms(2)
  have "(\<exists>cis. fx = [SetSearchResults r, SetContentInstanceLookup cis])
      \<and> {..<n} \<subseteq> resolved evs"
    unfolding e by auto
  then show ?thesis by (auto simp: resolved_def)
qed

lemma those_all_filled:
  "filled slots = {..<length slots} \<Longrightarrow> \<exists>cis. those slots = Some cis \<and> length cis = length slots"
proof (induction slots)
  case Nil
  then show ?case by simp
next
  case (Cons x xs)
  have 0: "0 \<in> filled (x # xs)" using Cons.prems by auto
  then obtain v where x: "x = Some v" by (auto simp: filled_def)
  have "filled xs = {..<length xs}"
  proof (intro set_eqI iffI)
    fix i assume "i \<in> filled xs"
    then show "i \<in> {..<length xs}" by (simp add: filled_def)
  next
    fix i assume "i \<in> {..<length xs}"
    then have "Suc i \<in> filled (x # xs)" using Cons.prems by auto
    then show "i \<in> filled xs" by (simp add: filled_def)
  qed
  from Cons.IH [OF this] x show ?case by auto
qed

lemma those_length: "those xs = Some ys \<Longrightarrow> length ys = length xs"
  by (induction xs arbitrary: ys) (auto split: option.splits)

lemma filled_update_mono: "i < length slots \<Longrightarrow> filled slots \<union> {i} \<subseteq> filled (slots[i := Some v])"
  by (auto simp: filled_def nth_list_update)

lemma resolved_Cons_cases:
  "resolved (ev # evs) = (case ev of ContentInstanceResponse i v \<Rightarrow> insert i (resolved evs) | _ \<Rightarrow> resolved evs)"
  by (cases ev) (auto simp: resolved_def)

text \<open>
  Progress of the wait when no request fails: a slot that was filled stays filled, a
  response fills its slot, and a waiting pipeline always has an empty slot.
\<close>

lemma hydrating_progress:
  assumes "run evs (Hydrating r slots0) = (st, fx)" and "those slots0 = None"
  shows "(\<exists>slots. st = Hydrating r slots \<and> those slots = None \<and> length slots = length slots0
            \<and> filled slots0 \<union> (resolved evs \<inter> {..<length slots0}) \<subseteq> filled slots)
       \<or> (st = Closed \<and> (\<exists>i e. fx = [SetError e] \<and> ContentInstanceFailure i e \<in> set evs))
       \<or> (st = Closed \<and> (\<exists>cis. length cis = length slots0
                                \<and> fx = [SetSearchResults r, SetContentInstanceLookup cis]))"
  using assms
proof (induction evs arbitrary: slots0 st fx)
  case Nil
  then show ?case by (auto simp: resolved_def)
next
  case (Cons ev evs)
  obtain st1 fx1 where s1: "step ev (Hydrating r slots0) = (st1, fx1)"
    by (cases "step ev (Hydrating r slots0)")
  obtain st2 fx2 where s2: "run evs st1 = (st2, fx2)" by (cases "run evs st1")
  from Cons.prems s1 s2 have res: "st = st2" "fx = fx1 @ fx2" by auto
  from step_Hydrating_cases [OF s1] show ?case
  proof (elim disjE exE conjE)
    assume a: "st1 = Hydrating r slots0" "fx1 = []"
    with s2 have run: "run evs (Hydrating r slots0) = (st2, fx2)" by simp
    have skip: "resolved (ev # evs) \<inter> {..<length slots0} \<subseteq> filled slots0 \<union> resolved evs"
    proof (cases ev)
      case (ContentInstanceResponse i v)
      show ?thesis
      proof (cases "i < length slots0 \<and> slots0 ! i = None")
        case True
        with s1 a ContentInstanceResponse have "slots0[i := Some v] = slots0"
          by (auto split: option.splits)
        then have "slots0[i := Some v] ! i = slots0 ! i" by simp
        with True have False by simp
        then show ?thesis ..
      next
        case False
        then show ?thesis unfolding ContentInstanceResponse
          by (auto simp: resolved_def filled_def)
      qed
    qed (auto simp: resolved_def)
    from Cons.IH [OF run Cons.prems(2)] show ?thesis
      unfolding res a using skip by (elim disjE exE conjE) (simp; blast)+
  next
    fix i v
    assume a: "ev = ContentInstanceResponse i v" "i < length slots0" "slots0 ! i = None"
      "those (slots0[i := Some v]) = None"
      "st1 = Hydrating r (slots0[i := Some v])" "fx1 = []"
    with s2 have run: "run evs (Hydrating r (slots0[i := Some v])) = (st2, fx2)" by simp
    have up: "filled slots0 \<union> {i} \<subseteq> filled (slots0[i := Some v])"
      using a(2) by (rule filled_update_mono)
    have rs: "resolved (ev # evs) = insert i (resolved evs)"
      unfolding a(1) by (simp add: resolved_Cons_cases)
    from Cons.IH [OF run a(4)] show ?thesis
      unfolding res a(5,6) rs using up by (elim disjE exE conjE) (simp; blast)+
  next
    fix i v cis
    assume a: "ev = ContentInstanceResponse i v" "i < length slots0"
      "those (slots0[i := Some v]) = Some cis" "st1 = Closed"
      "fx1 = [SetSearchResults r, SetContentInstanceLookup cis]"
    have "length cis = length slots0" using those_length [OF a(3)] by simp
    moreover from s2 a have "st2 = Closed" "fx2 = []" by (simp_all add: run_Closed)
    ultimately show ?thesis using res a by simp
  next
    fix i e
    assume a: "ev = ContentInstanceFailure i e" "st1 = Closed" "fx1 = [SetError e]"
    with s2 have "st2 = Closed" "fx2 = []" by (simp_all add: run_Closed)
    with res a show ?thesis by auto
  qed
qed

lemma published_when_all_resolved:
  assumes "n \<ge> 1"
    and "\<forall>i e. ContentInstanceFailure i e \<notin> set evs"
    and "\<forall>i<n. \<exists>v. ContentInstanceResponse i v \<in> set evs"
  shows "\<exists>cis. length cis = n
           \<and> run evs (Hydrating r (replicate n None)) = (Closed, [SetSearchResults r, SetContentInstanceLookup cis])"
proof -
  obtain st fx where run: "run evs (Hydrating r (replicate n None)) = (st, fx)"
    by (cases "run evs (Hydrating r (replicate n None))")
  have t: "those (replicate n (None :: content_instance option)) = None"
    using assms(1) by (cases n) auto
  have all: "{..<n} \<subseteq> resolved evs" using assms(3) by (auto simp: resolved_def)
  from hydrating_progress [OF run t] show ?thesis
  proof (elim disjE exE conjE)
    fix slots
    assume a: "st = Hydrating r slots" "those slots = None" "length slots = length (replicate n (None :: content_instance option))"
      "filled (replicate n None) \<union> (resolved evs \<inter> {..<length (replicate n (None :: content_instance option))}) \<subseteq> filled slots"
    then have "{..<length slots} \<subseteq> filled slots" using all by auto
    moreover have "filled slots \<subseteq> {..<length slots}" by (auto simp: filled_def)
    ultimately have "filled slots = {..<length slots}" by blast
    from those_all_filled [OF this] a(2) show ?thesis by simp
  next
    fix i e assume "ContentInstanceFailure i e \<in> set evs"
    with assms(2) show ?thesis by blast
  next
    fix cis
    assume "st = Closed" "length cis = length (replicate n (None :: content_instance option))"
      "fx = [SetSearchResults r, SetContentInstanceLookup cis]"
    with run show ?thesis by auto
  qed
qed

lemma step_next:
  "step (ContentInstanceResponse (length got) v) (Hydrating r (map Some got @ None # rest))
     = (case those (map Some (got @ [v]) @ rest) of
          None \<Rightarrow> (Hydrating r (map Some (got @ [v]) @ rest), [])
        | Some cis \<Rightarrow> (Closed, onNext \<lparr>result = r, contentInstances = Some cis\<rparr>))"
  by (simp add: nth_append list_update_append split: option.splits)

lemma run_in_order_general:
  "run (map (\<lambda>(i, v). ContentInstanceResponse i v) (enumerate (length got) vs))
       (Hydrating r (map Some got @ replicate (length vs) None))
   = (if vs = [] then (Hydrating r (map Some got), [])
      else (Closed, [SetSearchResults r, SetContentInstanceLookup (got @ vs)]))"
proof (induction vs arbitrary: got)
  case Nil
  then show ?case by simp
next
  case (Cons v vs)
  note ih = Cons.IH [of "got @ [v]"]
  show ?case
  proof (cases "vs = []")
    case True
    have "those (map Some (got @ [v]) @ []) = Some (got @ [v])"
      using those_map_Some [of "got @ [v]"] by simp
    then show ?thesis using True
      by (simp del: step.simps add: step_next onNext_def)
  next
    case False
    then have "those (map Some (got @ [v]) @ replicate (length vs) None) = None"
      by (intro those_replicate_None) simp
    then show ?thesis using False ih
      by (simp del: step.simps add: step_next)
  qed
qed

lemma run_in_order:
  assumes "length vs = k" "k > 0"
  shows "run (map (\<lambda>(i, v). ContentInstanceResponse i v) (enumerate 0 vs))
             (Hydrating r (replicate k None))
         = (Closed, [SetSearchResults r, SetContentInstanceLookup vs])"
  using run_in_order_general [of "[]" vs r] assms by auto

text \<open>
  Claim C6. Let \<open>n\<close> be the number of items of type \<^verbatim>\<open>Component\<close> in a search response \<open>r\<close>.
  Exactly \<open>n\<close> content-instance requests are made. If \<open>n = 0\<close>, the response is published
  at once, with \<^verbatim>\<open>contentInstances: null\<close>: \<open>setSearchResults\<close> alone is called. If \<open>n \<ge> 1\<close>,
  the response starts the \<open>n\<close> requests and publishes nothing; whatever events follow, if
  \<open>setSearchResults\<close> has been called then every one of the \<open>n\<close> requests has answered, and the
  call came with \<open>setContentInstanceLookup\<close> as one pair; and when every one of
  the \<open>n\<close> requests has answered and none has failed, in whatever order, the pair has been
  published; when they answer in the order of the requests, it is \<open>r\<close> with the \<open>n\<close>
  instances received.
\<close>

theorem onSearch_secondary_fetches:
  assumes "n = length (filter (\<lambda>item. type item = ''Component'') (items r))"
  shows "length (requests r) = n
       \<and> (n = 0 \<longrightarrow>
            step (SearchResponse r) Searching
              = (Closed, onNext \<lparr>result = r, contentInstances = None\<rparr> :: 'e effect list)
            \<and> onNext \<lparr>result = r, contentInstances = None\<rparr> = [SetSearchResults r :: 'e effect])
       \<and> (n \<ge> 1 \<longrightarrow>
            step (SearchResponse r) Searching
              = (Hydrating r (replicate n None), map GetContentInstance (requests r) :: 'e effect list)
            \<and> (\<forall>(evs :: 'e event list) st fx r'.
                  run evs (Hydrating r (replicate n None)) = (st, fx) \<and> SetSearchResults r' \<in> set fx \<longrightarrow>
                  (\<forall>i<n. \<exists>v. ContentInstanceResponse i v \<in> set evs)
                  \<and> (\<exists>cis. fx = [SetSearchResults r, SetContentInstanceLookup cis]))
            \<and> (\<forall>evs :: 'e event list.
                  (\<forall>i e. ContentInstanceFailure i e \<notin> set evs)
                  \<and> (\<forall>i<n. \<exists>v. ContentInstanceResponse i v \<in> set evs) \<longrightarrow>
                  (\<exists>cis. length cis = n
                     \<and> run evs (Hydrating r (replicate n None))
                         = (Closed, [SetSearchResults r, SetContentInstanceLookup cis])))
            \<and> (\<forall>vs. length vs = n \<longrightarrow>
                  run (map (\<lambda>(i, v). ContentInstanceResponse i v) (enumerate 0 vs))
                      (Hydrating r (replicate n None))
                  = (Closed, [SetSearchResults r, SetContentInstanceLookup vs :: 'e effect])))"
proof -
  have len: "length (requests r) = n" using assms by (simp add: requests_length)
  have zero: "n = 0 \<longrightarrow>
            step (SearchResponse r) Searching
              = (Closed, onNext \<lparr>result = r, contentInstances = None\<rparr> :: 'e effect list)
            \<and> onNext \<lparr>result = r, contentInstances = None\<rparr> = [SetSearchResults r :: 'e effect]"
  proof
    assume "n = 0"
    with len have "requests r = []" by simp
    then show "step (SearchResponse r) Searching
              = (Closed, onNext \<lparr>result = r, contentInstances = None\<rparr> :: 'e effect list)
            \<and> onNext \<lparr>result = r, contentInstances = None\<rparr> = [SetSearchResults r :: 'e effect]"
      by (simp add: onNext_def)
  qed
  have pos: "n \<ge> 1 \<longrightarrow>
            step (SearchResponse r) Searching
              = (Hydrating r (replicate n None), map GetContentInstance (requests r) :: 'e effect list)
            \<and> (\<forall>(evs :: 'e event list) st fx r'.
                  run evs (Hydrating r (replicate n None)) = (st, fx) \<and> SetSearchResults r' \<in> set fx \<longrightarrow>
                  (\<forall>i<n. \<exists>v. ContentInstanceResponse i v \<in> set evs)
                  \<and> (\<exists>cis. fx = [SetSearchResults r, SetContentInstanceLookup cis]))
            \<and> (\<forall>evs :: 'e event list.
                  (\<forall>i e. ContentInstanceFailure i e \<notin> set evs)
                  \<and> (\<forall>i<n. \<exists>v. ContentInstanceResponse i v \<in> set evs) \<longrightarrow>
                  (\<exists>cis. length cis = n
                     \<and> run evs (Hydrating r (replicate n None))
                         = (Closed, [SetSearchResults r, SetContentInstanceLookup cis])))
            \<and> (\<forall>vs. length vs = n \<longrightarrow>
                  run (map (\<lambda>(i, v). ContentInstanceResponse i v) (enumerate 0 vs))
                      (Hydrating r (replicate n None))
                  = (Closed, [SetSearchResults r, SetContentInstanceLookup vs :: 'e effect]))"
  proof
    assume n: "1 \<le> n"
    with len have "requests r \<noteq> []" by auto
    then have 1: "step (SearchResponse r) Searching
              = (Hydrating r (replicate n None), map GetContentInstance (requests r) :: 'e effect list)"
      using len by simp
    have 2: "\<forall>(evs :: 'e event list) st fx r'.
                  run evs (Hydrating r (replicate n None)) = (st, fx) \<and> SetSearchResults r' \<in> set fx \<longrightarrow>
                  (\<forall>i<n. \<exists>v. ContentInstanceResponse i v \<in> set evs)
                  \<and> (\<exists>cis. fx = [SetSearchResults r, SetContentInstanceLookup cis])"
      using published_after_all_resolved by blast
    have 4: "\<forall>evs :: 'e event list.
                  (\<forall>i e. ContentInstanceFailure i e \<notin> set evs)
                  \<and> (\<forall>i<n. \<exists>v. ContentInstanceResponse i v \<in> set evs) \<longrightarrow>
                  (\<exists>cis. length cis = n
                     \<and> run evs (Hydrating r (replicate n None))
                         = (Closed, [SetSearchResults r, SetContentInstanceLookup cis]))"
      using published_when_all_resolved [OF n] by blast
    have 3: "\<forall>vs. length vs = n \<longrightarrow>
                  run (map (\<lambda>(i, v). ContentInstanceResponse i v) (enumerate 0 vs))
                      (Hydrating r (replicate n None))
                  = (Closed, [SetSearchResults r, SetContentInstanceLookup vs :: 'e effect])"
    proof (intro allI impI)
      fix vs :: "content_instance list"
      assume "length vs = n"
      then show "run (map (\<lambda>(i, v). ContentInstanceResponse i v) (enumerate 0 vs))
                      (Hydrating r (replicate n None))
                  = (Closed, [SetSearchResults r, SetContentInstanceLookup vs :: 'e effect])"
        using run_in_order [of vs n r] n by simp
    qed
    from 1 2 4 3 show "step (SearchResponse r) Searching
              = (Hydrating r (replicate n None), map GetContentInstance (requests r) :: 'e effect list)
            \<and> (\<forall>(evs :: 'e event list) st fx r'.
                  run evs (Hydrating r (replicate n None)) = (st, fx) \<and> SetSearchResults r' \<in> set fx \<longrightarrow>
                  (\<forall>i<n. \<exists>v. ContentInstanceResponse i v \<in> set evs)
                  \<and> (\<exists>cis. fx = [SetSearchResults r, SetContentInstanceLookup cis]))
            \<and> (\<forall>evs :: 'e event list.
                  (\<forall>i e. ContentInstanceFailure i e \<notin> set evs)
                  \<and> (\<forall>i<n. \<exists>v. ContentInstanceResponse i v \<in> set evs) \<longrightarrow>
                  (\<exists>cis. length cis = n
                     \<and> run evs (Hydrating r (replicate n None))
                         = (Closed, [SetSearchResults r, SetContentInstanceLookup cis])))
            \<and> (\<forall>vs. length vs = n \<longrightarrow>
                  run (map (\<lambda>(i, v). ContentInstanceResponse i v) (enumerate 0 vs))
                      (Hydrating r (replicate n None))
                  = (Closed, [SetSearchResults r, SetContentInstanceLookup vs :: 'e effect]))"
      by (intro conjI)
  qed
  show ?thesis by (rule conjI [OF len conjI [OF zero pos]])
qed

text \<open>
  Claim C6 on the samples: a result with one image and no component is published at once;
  a result with three components starts three requests, and their three answers publish
  the pair.
\<close>

theorem onSearch_secondary_fetches_witness:
  "step (SearchResponse imageResult) Searching
     = (Closed, [SetSearchResults imageResult :: string effect])
   \<and> step (SearchResponse mixedResult) Searching
     = (Hydrating mixedResult [None, None, None],
        [GetContentInstance ''/site/components/hero.xml'',
         GetContentInstance ''/site/components/banner.xml'',
         GetContentInstance ''/site/components/footer.xml'' :: string effect])
   \<and> run [ContentInstanceResponse 0 heroInstance, ContentInstanceResponse 1 bannerInstance,
           ContentInstanceResponse 2 footerInstance]
          (Hydrating mixedResult [None, None, None])
     = (Closed, [SetSearchResults mixedResult,
                 SetContentInstanceLookup [heroInstance, bannerInstance, footerInstance] :: string effect])"
proof -
  have 0: "0 = length (filter (\<lambda>item. type item = ''Component'') (items imageResult))"
    by (simp add: imageResult_def logo_def)
  have 3: "3 = length (filter (\<lambda>item. type item = ''Component'') (items mixedResult))"
    by (simp add: mixedResult_def hero_def logo_def banner_def footer_def)
  have r: "requests mixedResult = [''/site/components/hero.xml'', ''/site/components/banner.xml'',
      ''/site/components/footer.xml'']"
    by (simp add: requests_def mixedResult_def hero_def logo_def banner_def footer_def)
  from onSearch_secondary_fetches [OF 0, where ?'e = string]
  have a: "step (SearchResponse imageResult) Searching
     = (Closed, [SetSearchResults imageResult :: string effect])"
    by simp
  from onSearch_secondary_fetches [OF 3, where ?'e = string]
  have b: "step (SearchResponse mixedResult) Searching
        = (Hydrating mixedResult (replicate 3 None), map GetContentInstance (requests mixedResult) :: string effect list)"
    and c: "\<forall>vs. length vs = 3 \<longrightarrow>
                  run (map (\<lambda>(i, v). ContentInstanceResponse i v) (enumerate 0 vs))
                      (Hydrating mixedResult (replicate 3 None))
                  = (Closed, [SetSearchResults mixedResult, SetContentInstanceLookup vs :: string effect])"
    by simp_all
  from c have "run (map (\<lambda>(i, v). ContentInstanceResponse i v)
                     (enumerate 0 [heroInstance, bannerInstance, footerInstance]))
                   (Hydrating mixedResult (replicate 3 None))
      = (Closed, [SetSearchResults mixedResult,
                  SetContentInstanceLookup [heroInstance, bannerInstance, footerInstance] :: string effect])"
    by (elim allE [of _ "[heroInstance, bannerInstance, footerInstance]"]) simp
  then have d: "run [ContentInstanceResponse 0 heroInstance, ContentInstanceResponse 1 bannerInstance,
           ContentInstanceResponse 2 footerInstance]
          (Hydrating mixedResult [None, None, None])
     = (Closed, [SetSearchResults mixedResult,
                 SetContentInstanceLookup [heroInstance, bannerInstance, footerInstance] :: string effect])"
    by (simp add: numeral_3_eq_3 numeral_2_eq_2 del: step.simps run.simps)
  from b have b': "step (SearchResponse mixedResult) Searching
     = (Hydrating mixedResult [None, None, None],
        [GetContentInstance ''/site/components/hero.xml'',
         GetContentInstance ''/site/components/banner.xml'',
         GetContentInstance ''/site/components/footer.xml'' :: string effect])"
    unfolding r by (simp add: numeral_3_eq_3 del: step.simps)
  from a b' d show ?thesis by (intro conjI)
qed

text \<open>
  Claim C7. Let a search response \<open>r\<close> with at least one component have started its
  requests, let any events \<open>evs\<close> have followed after which the pipeline still waits, and
  let a request \<open>i\<close> that has not answered fail with \<open>e\<close>. Then, whatever events \<open>evs'\<close> come
  later, the effects of the whole query are the requests and one call \<open>setError e\<close>: neither
  \<open>setSearchResults\<close> nor \<open>setContentInstanceLookup\<close> is called, before or after the failure,
  and the failure arrives in the error handler of the subscription.
\<close>

theorem secondary_fetch_failure:
  assumes "requests r \<noteq> []"
    and "run evs (Hydrating r (replicate (length (requests r)) None)) = (Hydrating r' slots, fx)"
    and "i < length slots" and "slots ! i = None"
  shows "run (SearchResponse r # evs @ ContentInstanceFailure i e # evs') Searching
         = (Closed, map GetContentInstance (requests r) @ [SetError e])"
proof -
  from hydrating_trace [OF assms(2)] have fx: "fx = []" and r': "r' = r" by auto
  have "step (ContentInstanceFailure i e) (Hydrating r' slots) = (Closed, [SetError e])"
    using assms(3,4) by (simp add: onError_def)
  then have "run (ContentInstanceFailure i e # evs') (Hydrating r' slots) = (Closed, [SetError e])"
    by (simp add: run_Closed)
  then have "run (evs @ ContentInstanceFailure i e # evs')
                 (Hydrating r (replicate (length (requests r)) None))
      = (Closed, [SetError e])"
    unfolding run_append assms(2) fx by simp
  then show ?thesis using assms(1) by simp
qed

text \<open>
  Claim C7 on the sample with three components: the first request answers, the third
  fails with status 503, the second answers afterwards. Only the error is reported.
\<close>

theorem secondary_fetch_failure_witness:
  "run [SearchResponse mixedResult, ContentInstanceResponse 0 heroInstance,
        ContentInstanceFailure 2 ''503'', ContentInstanceResponse 1 bannerInstance] Searching
     = (Closed, [GetContentInstance ''/site/components/hero.xml'',
                 GetContentInstance ''/site/components/banner.xml'',
                 GetContentInstance ''/site/components/footer.xml'',
                 SetError ''503''])"
proof -
  have r: "requests mixedResult = [''/site/components/hero.xml'', ''/site/components/banner.xml'',
      ''/site/components/footer.xml'']"
    by (simp add: requests_def mixedResult_def hero_def logo_def banner_def footer_def)
  have 1: "requests mixedResult \<noteq> []" unfolding r by simp
  have 2: "run [ContentInstanceResponse 0 heroInstance]
               (Hydrating mixedResult (replicate (length (requests mixedResult)) None))
           = (Hydrating mixedResult [Some heroInstance, None, None], [] :: string effect list)"
    unfolding r by simp
  have 3: "2 < length [Some heroInstance, None, None]" by simp
  have 4: "[Some heroInstance, None, None] ! 2 = None" by simp
  from secondary_fetch_failure [OF 1 2 3 4, of "''503''" "[ContentInstanceResponse 1 bannerInstance]"]
  show ?thesis unfolding r by (simp del: step.simps run.simps)
qed

text \<open>A query whose search has not answered when the component unmounts calls no setter.\<close>

lemma unmount_while_searching: "run (UnMount # evs) Searching = (Closed, [])"
  by (simp add: run_Closed)

text \<open>While the content instances are awaited, the unmount is not seen by the pipeline.\<close>

lemma unmount_while_hydrating:
  "run (UnMount # evs) (Hydrating r slots) = run evs (Hydrating r slots)"
  by (cases "run evs (Hydrating r slots)") simp

text \<open>
  Claim C8 at the input on which the code fails it: the search has answered with one
  component, and the component unmounts while the content instance is awaited. The
  emission of \<^verbatim>\<open>unMount$\<close> changes nothing, and the later answer of the request calls
  \<open>setSearchResults\<close> and \<open>setContentInstanceLookup\<close>; its later failure calls \<open>setError\<close>.
\<close>

theorem unmount_during_hydration:
  "run [SearchResponse heroResult, UnMount] Searching
     = (Hydrating heroResult [None], [GetContentInstance ''/site/components/hero.xml'' :: string effect])
   \<and> run [SearchResponse heroResult, UnMount, ContentInstanceResponse 0 heroInstance] Searching
     = (Closed, [GetContentInstance ''/site/components/hero.xml'', SetSearchResults heroResult,
                 SetContentInstanceLookup [heroInstance] :: string effect])
   \<and> run [SearchResponse heroResult, UnMount, ContentInstanceFailure 0 ''503''] Searching
     = (Closed, [GetContentInstance ''/site/components/hero.xml'', SetError ''503''])"
  by (simp add: requests_def heroResult_def hero_def onNext_def onError_def)

section \<open>Search results and their content instances\<close>








end
